theory Spec2Isabelle
  imports Main "HOL-Library.Word" "HOL-Library.AList"
begin

unbundle bit_operations_syntax

section \<open>The objects of pkg/networkengine/util/utils.go\<close>

text \<open>
  The file reconciles three kinds of kernel objects through the netlink library: policy
  routing rules, IPv4 routes and bridge neighbour (FDB) entries. The structs are those of
  the netlink and net packages, with the fields this file reads or that its callers set.
  A Go byte slice is a list of bytes; a nil slice and an empty slice are both the empty
  list (the code only takes their length and compares them). A pointer field that may be
  nil is an option. Go's \<open>int\<close> values are only compared and printed here, so unbounded
  integers stand for them.
\<close>

type_synonym byte = "8 word"

type_synonym IP = "byte list"

type_synonym IPMask = "byte list"

type_synonym HardwareAddr = "byte list"

record IPNet =
  IPNet_IP :: IP
  IPNet_Mask :: IPMask

record Rule =
  Rule_Priority :: int
  Rule_Table :: int
  Rule_Family :: int
  Rule_Src :: "IPNet option"

record Route =
  Route_LinkIndex :: int
  Route_Dst :: "IPNet option"
  Route_Src :: IP
  Route_Gw :: IP
  Route_Table :: int

record Neigh =
  Neigh_LinkIndex :: int
  Neigh_Family :: int
  Neigh_IP :: IP
  Neigh_HardwareAddr :: HardwareAddr

definition FAMILY_V4 :: int where
  "FAMILY_V4 = 2"

definition AF_BRIDGE :: int where
  "AF_BRIDGE = 7"

definition AllZeroMAC :: HardwareAddr where
  "AllZeroMAC = [0, 0, 0, 0, 0, 0]"

definition NewRavenRule :: "int \<Rightarrow> int \<Rightarrow> Rule" where
  "NewRavenRule rulePriority routeTableID =
     \<lparr>Rule_Priority = rulePriority, Rule_Table = routeTableID,
      Rule_Family = FAMILY_V4, Rule_Src = None\<rparr>"

text \<open>
  A Go map from strings to objects is an association list with distinct keys. The order
  of the list is the order in which a \<open>range\<close> loop happens to visit the map; Go leaves it
  unspecified, and every statement below that quantifies over the lists holds for every
  such order.
\<close>

type_synonym 'v gomap = "(string \<times> 'v) list"

subsection \<open>Text forms from the Go library\<close>

text \<open>
  \<open>net.HardwareAddr.String\<close>: the empty string for an empty address, otherwise the bytes
  as two lower-case hex digits each, joined by colons. The loop carries the index \<open>i\<close>
  and the buffer as the Go loop does.
\<close>

definition hexDigit :: string where
  "hexDigit = ''0123456789abcdef''"

fun HardwareAddr_String_loop :: "nat \<Rightarrow> byte list \<Rightarrow> string \<Rightarrow> string" where
  "HardwareAddr_String_loop i [] buf = buf"
| "HardwareAddr_String_loop i (b # bs) buf =
     HardwareAddr_String_loop (Suc i) bs
       ((if i > 0 then buf @ '':'' else buf)
          @ [hexDigit ! unat (drop_bit 4 b), hexDigit ! unat (b AND 0xF)])"

definition HardwareAddr_String :: "HardwareAddr \<Rightarrow> string" where
  "HardwareAddr_String a =
     (if length a = 0 then '''' else HardwareAddr_String_loop 0 a [])"

text \<open>
  \<open>net.IP.Equal\<close>: equal lengths compare bytewise; a 4-byte address equals the 16-byte
  address that carries it behind the IPv4-in-IPv6 prefix.
\<close>

definition v4InV6Prefix :: "byte list" where
  "v4InV6Prefix = [0, 0, 0, 0, 0, 0, 0, 0, 0, 0, 0xff, 0xff]"

definition IP_Equal :: "IP \<Rightarrow> IP \<Rightarrow> bool" where
  "IP_Equal ip x =
     (if length ip = length x then ip = x
      else if length ip = 4 \<and> length x = 16 then take 12 x = v4InV6Prefix \<and> ip = drop 12 x
      else if length ip = 16 \<and> length x = 4 then take 12 ip = v4InV6Prefix \<and> drop 12 ip = x
      else False)"

text \<open>\<open>bytes.Equal\<close> on two masks.\<close>

definition bytes_Equal :: "byte list \<Rightarrow> byte list \<Rightarrow> bool" where
  "bytes_Equal a b = (a = b)"

text \<open>
  \<open>%d\<close> of \<open>fmt.Sprintf\<close>: a signed decimal numeral.
\<close>

function decimal :: "nat \<Rightarrow> string" where
  "decimal n =
     (if n < 10 then [''0123456789'' ! n]
      else decimal (n div 10) @ [''0123456789'' ! (n mod 10)])"
  by pat_completeness auto
termination
  by (relation "measure (\<lambda>n. n)") auto

definition fmt_d :: "int \<Rightarrow> string" where
  "fmt_d i = (if i < 0 then CHR ''-'' # decimal (nat (- i)) else decimal (nat i))"

text \<open>
  The text forms of \<open>net.IPNet\<close> and \<open>net.IP\<close> (\<open>String\<close> on a non-nil prefix, and on an
  address) are parameters of the functions that use them: \<open>net_str\<close> and \<open>ip_str\<close>. The
  code only uses the results as map keys. The two definitions below are their values on
  4-byte addresses with 4-byte contiguous masks, dotted decimal and CIDR; they serve as
  the instance in the examples, whose addresses all have that shape.
\<close>

definition IPv4_String :: "IP \<Rightarrow> string" where
  "IPv4_String ip =
     (case ip of
        [a, b, c, d] \<Rightarrow>
          decimal (unat a) @ ''.'' @ decimal (unat b) @ ''.'' @ decimal (unat c)
            @ ''.'' @ decimal (unat d)
      | _ \<Rightarrow> ''<nil>'')"

fun leading_ones :: "byte \<Rightarrow> nat" where
  "leading_ones b =
     (if b = 0xff then 8 else if b = 0xfe then 7 else if b = 0xfc then 6
      else if b = 0xf8 then 5 else if b = 0xf0 then 4 else if b = 0xe0 then 3
      else if b = 0xc0 then 2 else if b = 0x80 then 1 else 0)"

definition IPv4Net_String :: "IPNet \<Rightarrow> string" where
  "IPv4Net_String n =
     IPv4_String (IPNet_IP n) @ ''/'' @ decimal (sum_list (map leading_ones (IPNet_Mask n)))"

subsection \<open>Keys\<close>

text \<open>
  \<open>RouteKey\<close> is \<open>fmt.Sprintf("%s-%d", route.Dst, route.Table)\<close>; a nil \<open>Dst\<close> prints
  as \<open><nil>\<close>. \<open>RuleKey\<close> is the source prefix's text, \<open>0.0.0.0/0\<close> when \<open>Src\<close> is nil.
\<close>

definition RouteKey :: "(IPNet \<Rightarrow> string) \<Rightarrow> Route \<Rightarrow> string" where
  "RouteKey net_str route =
     (case Route_Dst route of None \<Rightarrow> ''<nil>'' | Some dst \<Rightarrow> net_str dst)
       @ ''-'' @ fmt_d (Route_Table route)"

definition RuleKey :: "(IPNet \<Rightarrow> string) \<Rightarrow> Rule \<Rightarrow> string" where
  "RuleKey net_str rule =
     (let src = ''0.0.0.0/0'';
          srcIPNet = Rule_Src rule
      in case srcIPNet of None \<Rightarrow> src | Some n \<Rightarrow> net_str n)"

subsection \<open>Errors\<close>

text \<open>
  A Go \<open>error\<close> of the transport is a value with a message; \<open>nil\<close> is \<open>None\<close>.
  \<open>errorlist.List\<close> is a list of errors: \<open>Append\<close> adds a non-nil error at the end and
  ignores nil, \<open>AsError\<close> is nil for the empty list and the list itself otherwise. The
  errors appended here are the transport's and those of \<open>fmt.Errorf\<close>, never lists
  themselves. A panic of the Go runtime is a value of its own type.
\<close>

datatype error = Err string

definition Errorf :: "string \<Rightarrow> error \<Rightarrow> error" where
  "Errorf prefix e = (case e of Err msg \<Rightarrow> Err (prefix @ msg))"

type_synonym errorlist = "error list"

definition Append :: "errorlist \<Rightarrow> error option \<Rightarrow> errorlist" where
  "Append el err = (case err of None \<Rightarrow> el | Some e \<Rightarrow> el @ [e])"

definition AsError :: "errorlist \<Rightarrow> errorlist option" where
  "AsError el = (if length el = 0 then None else Some el)"

datatype panic = NilPointerDereference

section \<open>The transport\<close>

text \<open>
  Modelled from the spec: package \<open>pkg/networkengine/util/netlink\<close> (the add, delete,
  replace and list primitives of section 6 of the specification) is not among the
  sources. A request is one call of a mutating primitive. The endpoint \<open>netlink\<close> keeps
  the requests sent so far with the error each returned (\<open>sent\<close>, oldest first); what a
  request returns is decided by \<open>reply\<close>, an arbitrary function of the history and the
  request, so every pattern of failures is covered. The three list primitives return an
  error or the objects they found.
\<close>

datatype request =
    ReqRuleAdd Rule
  | ReqRuleDel Rule
  | ReqRouteAdd Route
  | ReqRouteReplace Route
  | ReqRouteDel Route
  | ReqNeighAppend Neigh
  | ReqNeighDel Neigh

type_synonym call = "request \<times> error option"

record netlink =
  sent :: "call list"
  reply :: "call list \<Rightarrow> request \<Rightarrow> error option"
  RuleListFiltered :: "int \<Rightarrow> int \<Rightarrow> error + Rule list"
  RouteListFiltered :: "int \<Rightarrow> int \<Rightarrow> error + Route list"
  NeighList :: "int \<Rightarrow> int \<Rightarrow> error + Neigh list"

definition netlink_request :: "request \<Rightarrow> netlink \<Rightarrow> error option \<times> netlink" where
  "netlink_request q n =
     (let err = reply n (sent n) q in (err, n\<lparr>sent := sent n @ [(q, err)]\<rparr>))"

definition RuleAdd :: "Rule \<Rightarrow> netlink \<Rightarrow> error option \<times> netlink" where
  "RuleAdd r = netlink_request (ReqRuleAdd r)"

definition RuleDel :: "Rule \<Rightarrow> netlink \<Rightarrow> error option \<times> netlink" where
  "RuleDel r = netlink_request (ReqRuleDel r)"

definition RouteAdd :: "Route \<Rightarrow> netlink \<Rightarrow> error option \<times> netlink" where
  "RouteAdd r = netlink_request (ReqRouteAdd r)"

definition RouteReplace :: "Route \<Rightarrow> netlink \<Rightarrow> error option \<times> netlink" where
  "RouteReplace r = netlink_request (ReqRouteReplace r)"

definition RouteDel :: "Route \<Rightarrow> netlink \<Rightarrow> error option \<times> netlink" where
  "RouteDel r = netlink_request (ReqRouteDel r)"

definition NeighAppend :: "Neigh \<Rightarrow> netlink \<Rightarrow> error option \<times> netlink" where
  "NeighAppend x = netlink_request (ReqNeighAppend x)"

definition NeighDel :: "Neigh \<Rightarrow> netlink \<Rightarrow> error option \<times> netlink" where
  "NeighDel x = netlink_request (ReqNeighDel x)"

text \<open>The calls a run has added to an endpoint, and the errors among them.\<close>

definition issued :: "netlink \<Rightarrow> netlink \<Rightarrow> call list" where
  "issued n n' = drop (length (sent n)) (sent n')"

definition failures :: "call list \<Rightarrow> errorlist" where
  "failures cs = concat (map (\<lambda>(q, err). case err of None \<Rightarrow> [] | Some e \<Rightarrow> [e]) cs)"

section \<open>Listing\<close>

text \<open>
  Each lister returns \<open>(nil, err)\<close> when the transport fails, and otherwise the objects
  indexed by key, a later object replacing an earlier one with the same key.
\<close>

definition ListRulesOnNode :: "(IPNet \<Rightarrow> string) \<Rightarrow> int \<Rightarrow> netlink \<Rightarrow> error + Rule gomap" where
  "ListRulesOnNode net_str routeTableID n =
     (case RuleListFiltered n FAMILY_V4 routeTableID of
        Inl err \<Rightarrow> Inl err
      | Inr rules \<Rightarrow>
          Inr (foldl (\<lambda>rulesOnNode v. AList.update (RuleKey net_str v) v rulesOnNode) [] rules))"

definition ListRoutesOnNode :: "(IPNet \<Rightarrow> string) \<Rightarrow> int \<Rightarrow> netlink \<Rightarrow> error + Route gomap" where
  "ListRoutesOnNode net_str routeTableID n =
     (case RouteListFiltered n FAMILY_V4 routeTableID of
        Inl err \<Rightarrow> Inl err
      | Inr routes \<Rightarrow>
          Inr (foldl (\<lambda>ro v. AList.update (RouteKey net_str v) v ro) [] routes))"

definition ListFDBsOnNode :: "(IP \<Rightarrow> string) \<Rightarrow> int \<Rightarrow> netlink \<Rightarrow> error + Neigh gomap" where
  "ListFDBsOnNode ip_str linkIndex n =
     (case NeighList n linkIndex AF_BRIDGE of
        Inl err \<Rightarrow> Inl err
      | Inr neighs \<Rightarrow>
          Inr (foldl (\<lambda>fdbsOnNode v.
                 if HardwareAddr_String (Neigh_HardwareAddr v) = HardwareAddr_String AllZeroMAC
                 then AList.update (ip_str (Neigh_IP v)) v fdbsOnNode
                 else fdbsOnNode) [] neighs))"

section \<open>The reconcile engine\<close>

text \<open>
  The maps \<open>current\<close> and \<open>desired\<close> are passed by reference and \<open>current\<close> is changed in
  place, so a call works on a store of maps (\<open>heap\<close>, from references to maps) and takes
  the two references. A frame is the state of one call: the store, the local \<open>errList\<close>
  and the endpoint.

  \<open>range_map m body\<close> is \<open>for k, v := range m\<close>: it visits the keys the map has when the
  loop starts; an entry removed before it is reached is not produced, and the value is
  the one the map holds when the key is reached. The values of the maps are pointers to
  objects; they are not nil, and the objects are not changed, so the maps hold the objects
  themselves. The logging calls have no effect on the result and are left out (the
  \<open>String\<close> methods they call on \<open>Dst\<close> and \<open>Gw\<close> accept nil).
\<close>

record 'v frame =
  heap :: "nat \<Rightarrow> 'v gomap"
  errList :: errorlist
  nl :: netlink

fun range_keys :: "nat \<Rightarrow> (string \<Rightarrow> 'v \<Rightarrow> 'v frame \<Rightarrow> 'v frame) \<Rightarrow> string list \<Rightarrow> 'v frame \<Rightarrow> 'v frame" where
  "range_keys m body [] s = s"
| "range_keys m body (k # ks) s =
     range_keys m body ks
       (case map_of (heap s m) k of None \<Rightarrow> s | Some v \<Rightarrow> body k v s)"

definition range_map :: "nat \<Rightarrow> (string \<Rightarrow> 'v \<Rightarrow> 'v frame \<Rightarrow> 'v frame) \<Rightarrow> 'v frame \<Rightarrow> 'v frame" where
  "range_map m body s = range_keys m body (map fst (heap s m)) s"

text \<open>The same loop for a body that may panic; a panic ends the loop with the frame it left.\<close>

fun range_keys_p ::
  "nat \<Rightarrow> (string \<Rightarrow> 'v \<Rightarrow> 'v frame \<Rightarrow> panic \<times> 'v frame + 'v frame) \<Rightarrow> string list \<Rightarrow> 'v frame
     \<Rightarrow> panic \<times> 'v frame + 'v frame" where
  "range_keys_p m body [] s = Inr s"
| "range_keys_p m body (k # ks) s =
     (case map_of (heap s m) k of
        None \<Rightarrow> range_keys_p m body ks s
      | Some v \<Rightarrow>
          (case body k v s of
             Inl p \<Rightarrow> Inl p
           | Inr s' \<Rightarrow> range_keys_p m body ks s'))"

definition range_map_p ::
  "nat \<Rightarrow> (string \<Rightarrow> 'v \<Rightarrow> 'v frame \<Rightarrow> panic \<times> 'v frame + 'v frame) \<Rightarrow> 'v frame
     \<Rightarrow> panic \<times> 'v frame + 'v frame" where
  "range_map_p m body s = range_keys_p m body (map fst (heap s m)) s"

definition delete_key :: "nat \<Rightarrow> string \<Rightarrow> 'v frame \<Rightarrow> 'v frame" where
  "delete_key m k s = s\<lparr>heap := (heap s)(m := AList.delete k (heap s m))\<rparr>"

definition record_err :: "error option \<times> netlink \<Rightarrow> 'v frame \<Rightarrow> 'v frame" where
  "record_err r s = (case r of (err, n') \<Rightarrow> s\<lparr>errList := Append (errList s) err, nl := n'\<rparr>)"

subsection \<open>ApplyRules\<close>

definition ApplyRules_desired :: "nat \<Rightarrow> string \<Rightarrow> Rule \<Rightarrow> Rule frame \<Rightarrow> Rule frame" where
  "ApplyRules_desired current k v s =
     (case map_of (heap s current) k of
        None \<Rightarrow> record_err (RuleAdd v (nl s)) s
      | Some _ \<Rightarrow> delete_key current k s)"

definition ApplyRules_unwanted :: "string \<Rightarrow> Rule \<Rightarrow> Rule frame \<Rightarrow> Rule frame" where
  "ApplyRules_unwanted k v s = record_err (RuleDel v (nl s)) s"

definition ApplyRules ::
  "nat \<Rightarrow> nat \<Rightarrow> (nat \<Rightarrow> Rule gomap) \<Rightarrow> netlink \<Rightarrow> errorlist option \<times> (nat \<Rightarrow> Rule gomap) \<times> netlink" where
  "ApplyRules current desired h n =
     (let s0 = \<lparr>heap = h, errList = [], nl = n\<rparr>;
          s1 = range_map desired (ApplyRules_desired current) s0;
          s2 = range_map current ApplyRules_unwanted s1
      in (AsError (errList s2), heap s2, nl s2))"

subsection \<open>ApplyRoutes\<close>

text \<open>
  \<open>routeEqual\<close> reads \<open>x.Dst.IP\<close> and \<open>y.Dst.IP\<close> first: a nil \<open>Dst\<close> on either side is a
  nil pointer dereference. The conjunction is evaluated left to right.
\<close>

definition routeEqual :: "Route \<Rightarrow> Route \<Rightarrow> panic + bool" where
  "routeEqual x y =
     (case Route_Dst x of
        None \<Rightarrow> Inl NilPointerDereference
      | Some xDst \<Rightarrow>
          (case Route_Dst y of
             None \<Rightarrow> Inl NilPointerDereference
           | Some yDst \<Rightarrow>
               Inr (if IP_Equal (IPNet_IP xDst) (IPNet_IP yDst) \<and> IP_Equal (Route_Gw x) (Route_Gw y)
                       \<and> bytes_Equal (IPNet_Mask xDst) (IPNet_Mask yDst)
                       \<and> Route_LinkIndex x = Route_LinkIndex y
                    then True else False)))"

definition ApplyRoutes_desired ::
  "nat \<Rightarrow> string \<Rightarrow> Route \<Rightarrow> Route frame \<Rightarrow> panic \<times> Route frame + Route frame" where
  "ApplyRoutes_desired current k v s =
     (case map_of (heap s current) k of
        None \<Rightarrow> Inr (record_err (RouteAdd v (nl s)) s)
      | Some ro \<Rightarrow>
          (let s' = delete_key current k s in
           case routeEqual ro v of
             Inl p \<Rightarrow> Inl (p, s')
           | Inr eq \<Rightarrow>
               if \<not> eq then Inr (record_err (RouteReplace v (nl s')) s') else Inr s'))"

definition ApplyRoutes_unwanted :: "string \<Rightarrow> Route \<Rightarrow> Route frame \<Rightarrow> Route frame" where
  "ApplyRoutes_unwanted k v s = record_err (RouteDel v (nl s)) s"

definition ApplyRoutes ::
  "nat \<Rightarrow> nat \<Rightarrow> (nat \<Rightarrow> Route gomap) \<Rightarrow> netlink
     \<Rightarrow> panic \<times> Route frame + errorlist option \<times> (nat \<Rightarrow> Route gomap) \<times> netlink" where
  "ApplyRoutes current desired h n =
     (let s0 = \<lparr>heap = h, errList = [], nl = n\<rparr> in
      case range_map_p desired (ApplyRoutes_desired current) s0 of
        Inl p \<Rightarrow> Inl p
      | Inr s1 \<Rightarrow>
          (let s2 = range_map current ApplyRoutes_unwanted s1
           in Inr (AsError (errList s2), heap s2, nl s2)))"

subsection \<open>ApplyFDBs\<close>

definition ApplyFDBs_desired :: "nat \<Rightarrow> string \<Rightarrow> Neigh \<Rightarrow> Neigh frame \<Rightarrow> Neigh frame" where
  "ApplyFDBs_desired current k v s =
     (case map_of (heap s current) k of
        None \<Rightarrow> record_err (NeighAppend v (nl s)) s
      | Some _ \<Rightarrow> delete_key current k s)"

definition ApplyFDBs_unwanted :: "string \<Rightarrow> Neigh \<Rightarrow> Neigh frame \<Rightarrow> Neigh frame" where
  "ApplyFDBs_unwanted k v s = record_err (NeighDel v (nl s)) s"

definition ApplyFDBs ::
  "nat \<Rightarrow> nat \<Rightarrow> (nat \<Rightarrow> Neigh gomap) \<Rightarrow> netlink \<Rightarrow> errorlist option \<times> (nat \<Rightarrow> Neigh gomap) \<times> netlink" where
  "ApplyFDBs current desired h n =
     (let s0 = \<lparr>heap = h, errList = [], nl = n\<rparr>;
          s1 = range_map desired (ApplyFDBs_desired current) s0;
          s2 = range_map current ApplyFDBs_unwanted s1
      in (AsError (errList s2), heap s2, nl s2))"

section \<open>Teardown\<close>

text \<open>
  The listed map is local to the call, so the loop is a fold over its entries. A failed
  listing leaves the nil map, over which the loop does not run. The local \<open>errList\<close> is
  written \<open>errs\<close>.
\<close>

definition CleanRoutes_step :: "errorlist \<times> netlink \<Rightarrow> string \<times> Route \<Rightarrow> errorlist \<times> netlink" where
  "CleanRoutes_step st kv =
     (case st of (errs, n) \<Rightarrow>
        (case RouteDel (snd kv) n of
           (None, n') \<Rightarrow> (errs, n')
         | (Some err, n') \<Rightarrow> (Append errs (Some (Errorf ''error deleting routes: '' err)), n')))"

definition CleanRoutesOnNode :: "(IPNet \<Rightarrow> string) \<Rightarrow> int \<Rightarrow> netlink \<Rightarrow> errorlist option \<times> netlink" where
  "CleanRoutesOnNode net_str routeTableID n =
     (let (routes, errs) =
            (case ListRoutesOnNode net_str routeTableID n of
               Inl err \<Rightarrow> ([], Append [] (Some (Errorf ''error listing routes: '' err)))
             | Inr ro \<Rightarrow> (ro, []));
          (errs', n') = foldl CleanRoutes_step (errs, n) routes
      in (AsError errs', n'))"

definition CleanRules_step :: "errorlist \<times> netlink \<Rightarrow> string \<times> Rule \<Rightarrow> errorlist \<times> netlink" where
  "CleanRules_step st kv =
     (case st of (errs, n) \<Rightarrow>
        (case RuleDel (snd kv) n of
           (None, n') \<Rightarrow> (errs, n')
         | (Some err, n') \<Rightarrow> (Append errs (Some (Errorf ''error deleting rules: '' err)), n')))"

definition CleanRulesOnNode :: "(IPNet \<Rightarrow> string) \<Rightarrow> int \<Rightarrow> netlink \<Rightarrow> errorlist option \<times> netlink" where
  "CleanRulesOnNode net_str routeTableID n =
     (let (rules, errs) =
            (case ListRulesOnNode net_str routeTableID n of
               Inl err \<Rightarrow> ([], Append [] (Some (Errorf ''error listing rules: '' err)))
             | Inr ru \<Rightarrow> (ru, []));
          (errs', n') = foldl CleanRules_step (errs, n) rules
      in (AsError errs', n'))"

section \<open>The kernel tables\<close>

text \<open>
  Modelled from the spec: the kernel's rule and route tables are mappings from identity
  key to object (section 3 of the specification), and a request that returns no error
  takes effect: an add or a replace stores the object under its key, a delete removes the
  key. A failed request, and a request for another kind of object, changes nothing.
  \<open>rules_after\<close> and \<open>routes_after\<close> are the table after a sequence of calls.
\<close>

datatype 'v change = Store string 'v | Remove string | Unchanged

fun apply_change :: "'v gomap \<Rightarrow> 'v change \<Rightarrow> 'v gomap" where
  "apply_change K (Store k v) = AList.update k v K"
| "apply_change K (Remove k) = AList.delete k K"
| "apply_change K Unchanged = K"

fun rule_change :: "(IPNet \<Rightarrow> string) \<Rightarrow> call \<Rightarrow> Rule change" where
  "rule_change net_str (ReqRuleAdd r, None) = Store (RuleKey net_str r) r"
| "rule_change net_str (ReqRuleDel r, None) = Remove (RuleKey net_str r)"
| "rule_change net_str _ = Unchanged"

definition rules_after :: "(IPNet \<Rightarrow> string) \<Rightarrow> call list \<Rightarrow> Rule gomap \<Rightarrow> Rule gomap" where
  "rules_after net_str cs K = foldl apply_change K (map (rule_change net_str) cs)"

fun route_change :: "(IPNet \<Rightarrow> string) \<Rightarrow> call \<Rightarrow> Route change" where
  "route_change net_str (ReqRouteAdd r, None) = Store (RouteKey net_str r) r"
| "route_change net_str (ReqRouteReplace r, None) = Store (RouteKey net_str r) r"
| "route_change net_str (ReqRouteDel r, None) = Remove (RouteKey net_str r)"
| "route_change net_str _ = Unchanged"

definition routes_after :: "(IPNet \<Rightarrow> string) \<Rightarrow> call list \<Rightarrow> Route gomap \<Rightarrow> Route gomap" where
  "routes_after net_str cs K = foldl apply_change K (map (route_change net_str) cs)"

text \<open>A map whose every entry sits under the key of its object.\<close>

definition keyed_by :: "('v \<Rightarrow> string) \<Rightarrow> 'v gomap \<Rightarrow> bool" where
  "keyed_by key m = list_all (\<lambda>(k, v). key v = k) m"

text \<open>
  The arguments of a converge call as the statements below take them: current and
  desired are two different maps, and each has distinct keys, as every Go map has.
\<close>

definition two_maps :: "(nat \<Rightarrow> 'v gomap) \<Rightarrow> nat \<Rightarrow> nat \<Rightarrow> bool" where
  "two_maps h current desired =
     (current \<noteq> desired \<and> distinct (map fst (h current)) \<and> distinct (map fst (h desired)))"

section \<open>The common shape of the three converge functions\<close>

text \<open>
  The three functions differ in the requests they send and in what they do with a key
  that both maps hold. \<open>gen_desired\<close> and \<open>gen_unwanted\<close> are the two loop bodies with
  those parts as parameters; each body above is shown to be an instance, and the loops are
  analysed once. \<open>send_all\<close> sends a list of requests in order and \<open>calls_of\<close> is what
  the endpoint records for them. \<open>plan\<close> is the request sequence of a whole call:
  for each desired entry the add (key absent from current) or what the comparison asks
  for (key present), then a delete for each entry of current whose key desired lacks
  (\<open>unwanted\<close>).
\<close>

definition gen_desired ::
  "('v \<Rightarrow> request) \<Rightarrow> ('v \<Rightarrow> 'v \<Rightarrow> panic + request option) \<Rightarrow> nat \<Rightarrow> string \<Rightarrow> 'v \<Rightarrow> 'v frame
     \<Rightarrow> panic \<times> 'v frame + 'v frame" where
  "gen_desired addq cmp current k v s =
     (case map_of (heap s current) k of
        None \<Rightarrow> Inr (record_err (netlink_request (addq v) (nl s)) s)
      | Some ro \<Rightarrow>
          (let s' = delete_key current k s in
           case cmp ro v of
             Inl p \<Rightarrow> Inl (p, s')
           | Inr None \<Rightarrow> Inr s'
           | Inr (Some q) \<Rightarrow> Inr (record_err (netlink_request q (nl s')) s')))"

definition gen_unwanted :: "('v \<Rightarrow> request) \<Rightarrow> string \<Rightarrow> 'v \<Rightarrow> 'v frame \<Rightarrow> 'v frame" where
  "gen_unwanted delq k v s = record_err (netlink_request (delq v) (nl s)) s"

fun send_all :: "request list \<Rightarrow> netlink \<Rightarrow> netlink" where
  "send_all [] n = n"
| "send_all (q # qs) n = send_all qs (snd (netlink_request q n))"

fun calls_of :: "request list \<Rightarrow> netlink \<Rightarrow> call list" where
  "calls_of [] n = []"
| "calls_of (q # qs) n = (q, reply n (sent n) q) # calls_of qs (snd (netlink_request q n))"

definition matched_reqs :: "('v \<Rightarrow> request) \<Rightarrow> ('v \<Rightarrow> 'v \<Rightarrow> panic + request option) \<Rightarrow> 'v gomap \<Rightarrow> string \<Rightarrow> 'v \<Rightarrow> request list" where
  "matched_reqs addq cmp C k v =
     (case map_of C k of
        None \<Rightarrow> [addq v]
      | Some ro \<Rightarrow> (case cmp ro v of Inr (Some q) \<Rightarrow> [q] | _ \<Rightarrow> []))"

definition key_reqs :: "('v \<Rightarrow> request) \<Rightarrow> ('v \<Rightarrow> 'v \<Rightarrow> panic + request option) \<Rightarrow> 'v gomap \<Rightarrow> 'v gomap \<Rightarrow> string list \<Rightarrow> request list" where
  "key_reqs addq cmp C D ks =
     concat (map (\<lambda>k. case map_of D k of None \<Rightarrow> [] | Some v \<Rightarrow> matched_reqs addq cmp C k v) ks)"

definition desired_reqs :: "('v \<Rightarrow> request) \<Rightarrow> ('v \<Rightarrow> 'v \<Rightarrow> panic + request option) \<Rightarrow> 'v gomap \<Rightarrow> 'v gomap \<Rightarrow> request list" where
  "desired_reqs addq cmp C D = concat (map (\<lambda>(k, v). matched_reqs addq cmp C k v) D)"

definition unwanted :: "'v gomap \<Rightarrow> 'v gomap \<Rightarrow> 'v gomap" where
  "unwanted C D = filter (\<lambda>(k, v). k \<notin> fst ` set D) C"

definition remaining :: "'v gomap \<Rightarrow> string list \<Rightarrow> 'v gomap \<Rightarrow> 'v gomap" where
  "remaining D ks C = filter (\<lambda>(k, v). \<not> (k \<in> set ks \<and> map_of D k \<noteq> None)) C"

definition plan ::
  "('v \<Rightarrow> request) \<Rightarrow> ('v \<Rightarrow> 'v \<Rightarrow> panic + request option) \<Rightarrow> ('v \<Rightarrow> request)
     \<Rightarrow> 'v gomap \<Rightarrow> 'v gomap \<Rightarrow> request list" where
  "plan addq cmp delq C D = desired_reqs addq cmp C D @ map (\<lambda>(k, v). delq v) (unwanted C D)"

definition no_cmp :: "'v \<Rightarrow> 'v \<Rightarrow> panic + request option" where
  "no_cmp ro v = Inr None"

definition route_cmp :: "Route \<Rightarrow> Route \<Rightarrow> panic + request option" where
  "route_cmp ro v =
     (case routeEqual ro v of
        Inl p \<Rightarrow> Inl p
      | Inr eq \<Rightarrow> Inr (if \<not> eq then Some (ReqRouteReplace v) else None))"

text \<open>
  \<open>logged pre s\<close>: since the endpoint's history was \<open>pre\<close>, the frame's error list holds
  exactly the errors of the calls made.
\<close>

definition logged :: "call list \<Rightarrow> 'v frame \<Rightarrow> bool" where
  "logged pre s = (\<exists>cs. sent (nl s) = pre @ cs \<and> errList s = failures cs)"

text \<open>
  The desired entries for which a converge function sends a request.
\<close>

definition written ::
  "('v \<Rightarrow> request) \<Rightarrow> ('v \<Rightarrow> 'v \<Rightarrow> panic + request option) \<Rightarrow> 'v gomap \<Rightarrow> 'v gomap \<Rightarrow> 'v gomap" where
  "written addq cmp C D = filter (\<lambda>(k, v). matched_reqs addq cmp C k v \<noteq> []) D"

text \<open>
  A request that carries a route whose key is \<open>k\<close>.
\<close>

fun route_request_for :: "(IPNet \<Rightarrow> string) \<Rightarrow> string \<Rightarrow> request \<Rightarrow> bool" where
  "route_request_for net_str k (ReqRouteAdd x) = (RouteKey net_str x = k)"
| "route_request_for net_str k (ReqRouteReplace x) = (RouteKey net_str x = k)"
| "route_request_for net_str k (ReqRouteDel x) = (RouteKey net_str x = k)"
| "route_request_for net_str k _ = False"

text \<open>
  The two hex digits that \<open>HardwareAddr_String_loop\<close> appends for a byte.
\<close>

definition hex2 :: "byte \<Rightarrow> string" where
  "hex2 b = [hexDigit ! unat (drop_bit 4 b), hexDigit ! unat (b AND 0xF)]"

section \<open>Example objects\<close>

text \<open>
  Endpoints: \<open>quiet\<close> answers every request with nil and lists nothing; \<open>first_fails\<close>
  fails the first request it receives and no other.
\<close>

definition quiet :: netlink where
  "quiet = \<lparr>sent = [], reply = (\<lambda>_ _. None), RuleListFiltered = (\<lambda>_ _. Inr []),
            RouteListFiltered = (\<lambda>_ _. Inr []), NeighList = (\<lambda>_ _. Inr [])\<rparr>"

definition first_fails :: netlink where
  "first_fails = quiet\<lparr>reply := (\<lambda>cs _. if cs = [] then Some (Err ''file exists'') else None)\<rparr>"

text \<open>
  The objects of the examples: 4-byte addresses with contiguous masks.
\<close>

definition net_10_1 :: IPNet where
  "net_10_1 = \<lparr>IPNet_IP = [10, 1, 0, 0], IPNet_Mask = [255, 255, 0, 0]\<rparr>"

definition net_10_2 :: IPNet where
  "net_10_2 = \<lparr>IPNet_IP = [10, 2, 0, 0], IPNet_Mask = [255, 255, 0, 0]\<rparr>"

definition net_10_3 :: IPNet where
  "net_10_3 = \<lparr>IPNet_IP = [10, 3, 0, 0], IPNet_Mask = [255, 255, 0, 0]\<rparr>"

definition net_10_4 :: IPNet where
  "net_10_4 = \<lparr>IPNet_IP = [10, 4, 0, 0], IPNet_Mask = [255, 255, 0, 0]\<rparr>"

definition rule_a :: Rule where
  "rule_a = \<lparr>Rule_Priority = 100, Rule_Table = 101, Rule_Family = 2, Rule_Src = Some net_10_1\<rparr>"

definition rule_b :: Rule where
  "rule_b = \<lparr>Rule_Priority = 200, Rule_Table = 102, Rule_Family = 2, Rule_Src = Some net_10_1\<rparr>"

definition rule_c :: Rule where
  "rule_c = \<lparr>Rule_Priority = 100, Rule_Table = 101, Rule_Family = 2, Rule_Src = Some net_10_2\<rparr>"

definition rule_d :: Rule where
  "rule_d = \<lparr>Rule_Priority = 100, Rule_Table = 101, Rule_Family = 2, Rule_Src = Some net_10_3\<rparr>"

definition rule_e :: Rule where
  "rule_e = \<lparr>Rule_Priority = 100, Rule_Table = 101, Rule_Family = 2, Rule_Src = Some net_10_4\<rparr>"

text \<open>
  Map 0 is current and map 1 is desired. Rules: \<open>rule_c\<close> is on both sides, \<open>rule_a\<close> only
  current, \<open>rule_d\<close> and \<open>rule_e\<close> only desired.
\<close>

definition rules_heap :: "nat \<Rightarrow> Rule gomap" where
  "rules_heap = (\<lambda>_. [])(0 := [(''10.1.0.0/16'', rule_a), (''10.2.0.0/16'', rule_c)],
                         1 := [(''10.2.0.0/16'', rule_c), (''10.3.0.0/16'', rule_d),
                               (''10.4.0.0/16'', rule_e)])"

text \<open>
  Routes: key \<open>10.0.0.0/24-100\<close> is on both sides with different gateways, key
  \<open>10.0.3.0/24-100\<close> on both sides with different source addresses only, \<open>route_c\<close> only
  current, \<open>route_b\<close> only desired.
\<close>

definition route_to :: "byte \<Rightarrow> IP \<Rightarrow> IP \<Rightarrow> Route" where
  "route_to c gw src =
     \<lparr>Route_LinkIndex = 3, Route_Dst = Some \<lparr>IPNet_IP = [10, 0, c, 0], IPNet_Mask = [255, 255, 255, 0]\<rparr>,
      Route_Src = src, Route_Gw = gw, Route_Table = 100\<rparr>"

definition routes_heap :: "nat \<Rightarrow> Route gomap" where
  "routes_heap = (\<lambda>_. [])(0 := [(''10.0.0.0/24-100'', route_to 0 [1, 1, 1, 1] []),
                                (''10.0.2.0/24-100'', route_to 2 [1, 1, 1, 1] []),
                                (''10.0.3.0/24-100'', route_to 3 [1, 1, 1, 1] [])],
                          1 := [(''10.0.0.0/24-100'', route_to 0 [2, 2, 2, 2] []),
                                (''10.0.1.0/24-100'', route_to 1 [1, 1, 1, 1] []),
                                (''10.0.3.0/24-100'', route_to 3 [1, 1, 1, 1] [10, 0, 3, 1])])"

text \<open>
  FDB entries: \<open>1.1.1.1\<close> is on both sides with different hardware addresses, \<open>3.3.3.3\<close>
  only current, \<open>2.2.2.2\<close> only desired.
\<close>

definition fdb_to :: "byte \<Rightarrow> HardwareAddr \<Rightarrow> Neigh" where
  "fdb_to a mac = \<lparr>Neigh_LinkIndex = 5, Neigh_Family = 7, Neigh_IP = [a, a, a, a],
                    Neigh_HardwareAddr = mac\<rparr>"

definition fdb_heap :: "nat \<Rightarrow> Neigh gomap" where
  "fdb_heap = (\<lambda>_. [])(0 := [(''1.1.1.1'', fdb_to 1 [0, 0, 0, 0, 0, 0]),
                             (''3.3.3.3'', fdb_to 3 [0, 0, 0, 0, 0, 0])],
                       1 := [(''1.1.1.1'', fdb_to 1 [0xaa, 0xbb, 0xcc, 0xdd, 0xee, 0xff]),
                             (''2.2.2.2'', fdb_to 2 [0, 0, 0, 0, 0, 0])])"

text \<open>One map passed as both current and desired.\<close>

definition alias_heap :: "nat \<Rightarrow> Rule gomap" where
  "alias_heap = (\<lambda>_. [])(0 := [(''10.1.0.0/16'', rule_a)])"

text \<open>A default route: no destination prefix.\<close>

definition default_via :: "IP \<Rightarrow> Route" where
  "default_via gw = \<lparr>Route_LinkIndex = 3, Route_Dst = None, Route_Src = [], Route_Gw = gw,
                      Route_Table = 100\<rparr>"

definition default_heap :: "nat \<Rightarrow> Route gomap" where
  "default_heap = (\<lambda>_. [])(0 := [(''<nil>-100'', default_via [1, 1, 1, 1])],
                           1 := [(''<nil>-100'', default_via [2, 2, 2, 2])])"

text \<open>
  A default route on both sides next to a route that only desired has; map 2 is map 1 in
  the other order.
\<close>

definition mixed_heap :: "nat \<Rightarrow> Route gomap" where
  "mixed_heap = (\<lambda>_. [])(0 := [(''<nil>-100'', default_via [1, 1, 1, 1])],
                         1 := [(''10.0.1.0/24-100'', route_to 1 [1, 1, 1, 1] []),
                               (''<nil>-100'', default_via [2, 2, 2, 2])],
                         2 := [(''<nil>-100'', default_via [2, 2, 2, 2]),
                               (''10.0.1.0/24-100'', route_to 1 [1, 1, 1, 1] [])])"

text \<open>Endpoints whose list primitives return something.\<close>

definition fdb_listing :: netlink where
  "fdb_listing = quiet\<lparr>NeighList := (\<lambda>_ _. Inr [fdb_to 1 [0, 0, 0, 0, 0, 0],
                    fdb_to 2 [0xaa, 0xbb, 0xcc, 0xdd, 0xee, 0xff], fdb_to 3 [0, 0, 0, 0, 0, 0]])\<rparr>"

definition routes_listing :: netlink where
  "routes_listing = first_fails\<lparr>RouteListFiltered :=
     (\<lambda>_ _. Inr [route_to 0 [1, 1, 1, 1] [], route_to 2 [1, 1, 1, 1] []])\<rparr>"

definition broken_listing :: netlink where
  "broken_listing = quiet\<lparr>RouteListFiltered := (\<lambda>_ _. Inl (Err ''no buffer space available''))\<rparr>"

section \<open>The endpoint and the loops\<close>

lemma sent_request [simp]: "sent (snd (netlink_request q n)) = sent n @ [(q, reply n (sent n) q)]"
  by (simp add: netlink_request_def Let_def)

lemma reply_request [simp]: "reply (snd (netlink_request q n)) = reply n"
  by (simp add: netlink_request_def Let_def)

lemma fst_request [simp]: "fst (netlink_request q n) = reply n (sent n) q"
  by (simp add: netlink_request_def Let_def)

lemma sent_send_all: "sent (send_all qs n) = sent n @ calls_of qs n"
  by (induction qs arbitrary: n) simp_all

lemma reply_send_all [simp]: "reply (send_all qs n) = reply n"
  by (induction qs arbitrary: n) simp_all

lemma send_all_append: "send_all (qs @ rs) n = send_all rs (send_all qs n)"
  by (induction qs arbitrary: n) simp_all

lemma calls_of_append: "calls_of (qs @ rs) n = calls_of qs n @ calls_of rs (send_all qs n)"
  by (induction qs arbitrary: n) simp_all

lemma map_fst_calls_of [simp]: "map fst (calls_of qs n) = qs"
  by (induction qs arbitrary: n) simp_all

lemma issued_send_all [simp]: "issued n (send_all qs n) = calls_of qs n"
  by (simp add: issued_def sent_send_all)

lemma issued_self [simp]: "issued n n = []"
  by (simp add: issued_def)

lemma failures_append [simp]: "failures (xs @ ys) = failures xs @ failures ys"
  by (simp add: failures_def)

lemma failures_Nil [simp]: "failures [] = []"
  by (simp add: failures_def)

lemma failures_Cons [simp]:
  "failures ((q, e) # cs) = (case e of None \<Rightarrow> [] | Some x \<Rightarrow> [x]) @ failures cs"
  by (simp add: failures_def)

lemma failures_empty_iff: "failures cs = [] \<longleftrightarrow> (\<forall>c \<in> set cs. snd c = None)"
  by (induction cs) (auto simp: failures_def split: option.splits)

lemma heap_record_err [simp]: "heap (record_err r s) = heap s"
  by (cases r) (simp add: record_err_def)

lemma nl_record_err [simp]: "nl (record_err r s) = snd r"
  by (cases r) (simp add: record_err_def)

lemma errList_record_err_request [simp]:
  "errList (record_err (netlink_request q n) s) = errList s @ failures [(q, reply n (sent n) q)]"
  by (simp add: record_err_def netlink_request_def Let_def Append_def failures_def split: option.splits)

lemma key_reqs_Cons:
  "key_reqs addq cmp C D (k # ks) =
     (case map_of D k of None \<Rightarrow> [] | Some v \<Rightarrow> matched_reqs addq cmp C k v) @ key_reqs addq cmp C D ks"
  by (simp add: key_reqs_def)

lemma key_reqs_delete:
  "k \<notin> set ks \<Longrightarrow> key_reqs addq cmp (AList.delete k C) D ks = key_reqs addq cmp C D ks"
proof -
  assume "k \<notin> set ks"
  then have "\<And>x. x \<in> set ks \<Longrightarrow> map_of (AList.delete k C) x = map_of C x"
    by (metis map_of_delete)
  then show ?thesis
    unfolding key_reqs_def matched_reqs_def
    by (intro arg_cong [where f = concat] map_cong refl) (simp cong: option.case_cong)
qed

lemma remaining_Nil [simp]: "remaining D [] C = C"
  by (simp add: remaining_def)

lemma remaining_skip:
  "map_of D k = None \<Longrightarrow> remaining D (k # ks) C = remaining D ks C"
  unfolding remaining_def by (rule filter_cong) auto

lemma remaining_delete:
  "map_of D k = Some v \<Longrightarrow> remaining D ks (AList.delete k C) = remaining D (k # ks) C"
  unfolding remaining_def AList.delete_eq filter_filter by (rule filter_cong) auto

lemma remaining_absent:
  "map_of C k = None \<Longrightarrow> remaining D (k # ks) C = remaining D ks C"
  unfolding remaining_def by (rule filter_cong) (auto simp: map_of_eq_None_iff image_iff)

lemma range_desired_Inr:
  assumes "current \<noteq> desired" and "distinct ks"
    and "range_keys_p desired (gen_desired addq cmp current) ks s = Inr s'"
  shows "heap s' = (heap s)(current := remaining (heap s desired) ks (heap s current))
       \<and> nl s' = send_all (key_reqs addq cmp (heap s current) (heap s desired) ks) (nl s)
       \<and> errList s' = errList s
            @ failures (calls_of (key_reqs addq cmp (heap s current) (heap s desired) ks) (nl s))"
  using assms(2,3)
proof (induction ks arbitrary: s)
  case Nil
  then show ?case by (auto simp: key_reqs_def)
next
  case (Cons k ks)
  have kn: "k \<notin> set ks" and dk: "distinct ks" using Cons.prems(1) by auto
  show ?case
  proof (cases "map_of (heap s desired) k")
    case None
    with Cons.prems have r: "range_keys_p desired (gen_desired addq cmp current) ks s = Inr s'"
      by simp
    from Cons.IH [OF dk r] None show ?thesis
      by (simp add: key_reqs_Cons remaining_skip)
  next
    case (Some v)
    with Cons.prems obtain s1 where b: "gen_desired addq cmp current k v s = Inr s1"
      and r: "range_keys_p desired (gen_desired addq cmp current) ks s1 = Inr s'"
      by (auto split: sum.splits)
    note ih = Cons.IH [OF dk r]
    let ?qs = "matched_reqs addq cmp (heap s current) k v"
    have s1: "heap s1 desired = heap s desired
        \<and> heap s1 current = (if map_of (heap s current) k = None then heap s current
                                else AList.delete k (heap s current))
        \<and> nl s1 = send_all ?qs (nl s)
        \<and> errList s1 = errList s @ failures (calls_of ?qs (nl s))
        \<and> (\<forall>a. a \<noteq> current \<longrightarrow> heap s1 a = heap s a)"
      using b assms(1)
      by (auto simp: gen_desired_def matched_reqs_def delete_key_def Let_def
          split: option.splits sum.splits)
    have kr: "key_reqs addq cmp (heap s1 current) (heap s1 desired) ks
        = key_reqs addq cmp (heap s current) (heap s desired) ks"
      using s1 kn by (simp add: key_reqs_delete)
    have hp: "heap s' = (heap s)(current := remaining (heap s desired) (k # ks) (heap s current))"
    proof (rule ext)
      fix a
      show "heap s' a = ((heap s)(current := remaining (heap s desired) (k # ks) (heap s current))) a"
        using ih s1 Some
        by (cases "a = current") (simp_all add: remaining_delete remaining_absent)
    qed
    have n: "nl s' = send_all (key_reqs addq cmp (heap s current) (heap s desired) (k # ks)) (nl s)"
      using ih s1 kr Some by (simp add: key_reqs_Cons send_all_append)
    have e: "errList s' = errList s
        @ failures (calls_of (key_reqs addq cmp (heap s current) (heap s desired) (k # ks)) (nl s))"
      using ih s1 kr Some
      by (simp add: key_reqs_Cons calls_of_append)
    from hp n e show ?thesis by simp
  qed
qed

lemma gen_desired_frame:
  assumes "current \<noteq> desired" and "gen_desired addq cmp current k v s = Inr s1"
  shows "heap s1 desired = heap s desired"
    and "heap s1 current = (if map_of (heap s current) k = None then heap s current
                            else AList.delete k (heap s current))"
  using assms
  by (auto simp: gen_desired_def delete_key_def Let_def split: option.splits sum.splits)

lemma map_of_delete_other: "k' \<noteq> k \<Longrightarrow> map_of (AList.delete k C) k' = map_of C k'"
  by simp

lemma range_desired_total:
  assumes "current \<noteq> desired" and "distinct ks"
    and "\<And>k ro v. k \<in> set ks \<Longrightarrow> map_of (heap s current) k = Some ro
            \<Longrightarrow> map_of (heap s desired) k = Some v \<Longrightarrow> cmp ro v \<noteq> Inl NilPointerDereference"
  shows "\<exists>s'. range_keys_p desired (gen_desired addq cmp current) ks s = Inr s'"
  using assms(2,3)
proof (induction ks arbitrary: s)
  case Nil
  then show ?case by simp
next
  case (Cons k ks)
  have kn: "k \<notin> set ks" and dk: "distinct ks" using Cons.prems(1) by auto
  show ?case
  proof (cases "map_of (heap s desired) k")
    case None
    have "\<exists>s'. range_keys_p desired (gen_desired addq cmp current) ks s = Inr s'"
      by (rule Cons.IH [OF dk]) (use Cons.prems(2) in auto)
    with None show ?thesis by simp
  next
    case (Some v)
    have "\<exists>s1. gen_desired addq cmp current k v s = Inr s1"
    proof (cases "map_of (heap s current) k")
      case None
      then show ?thesis by (simp add: gen_desired_def)
    next
      case (Some ro)
      from Cons.prems(2) [OF _ Some \<open>map_of (heap s desired) k = Some v\<close>]
      have "cmp ro v \<noteq> Inl NilPointerDereference" by simp
      then show ?thesis using Some
        by (cases "cmp ro v") (auto simp: gen_desired_def Let_def split: option.splits panic.splits
            intro: panic.exhaust)
    qed
    then obtain s1 where b: "gen_desired addq cmp current k v s = Inr s1" ..
    note fr = gen_desired_frame [OF assms(1) b]
    have "\<exists>s'. range_keys_p desired (gen_desired addq cmp current) ks s1 = Inr s'"
    proof (rule Cons.IH [OF dk])
      fix k' ro' v'
      assume k': "k' \<in> set ks" and c: "map_of (heap s1 current) k' = Some ro'"
        and d: "map_of (heap s1 desired) k' = Some v'"
      from k' kn have ne: "k' \<noteq> k" by auto
      from c fr(2) ne have "map_of (heap s current) k' = Some ro'"
        by (simp split: if_splits)
      moreover from d fr(1) have "map_of (heap s desired) k' = Some v'" by simp
      ultimately show "cmp ro' v' \<noteq> Inl NilPointerDereference"
        using Cons.prems(2) k' by auto
    qed
    with Some b show ?thesis by simp
  qed
qed

lemma range_desired_silent:
  assumes "current \<noteq> desired" and "distinct ks"
    and "key_reqs addq cmp (heap s current) (heap s desired) ks = []"
  shows "(case range_keys_p desired (gen_desired addq cmp current) ks s of
            Inl (p, s') \<Rightarrow> nl s' = nl s \<and> errList s' = errList s
          | Inr s' \<Rightarrow> nl s' = nl s \<and> errList s' = errList s)"
  using assms(2,3)
proof (induction ks arbitrary: s)
  case Nil
  then show ?case by simp
next
  case (Cons k ks)
  have kn: "k \<notin> set ks" and dk: "distinct ks" using Cons.prems(1) by auto
  show ?case
  proof (cases "map_of (heap s desired) k")
    case None
    with Cons.prems(2) have "key_reqs addq cmp (heap s current) (heap s desired) ks = []"
      by (simp add: key_reqs_Cons)
    from Cons.IH [OF dk this] None show ?thesis by simp
  next
    case (Some v)
    with Cons.prems(2) have m: "matched_reqs addq cmp (heap s current) k v = []"
      and rest: "key_reqs addq cmp (heap s current) (heap s desired) ks = []"
      by (simp_all add: key_reqs_Cons)
    show ?thesis
    proof (cases "gen_desired addq cmp current k v s")
      case (Inl ps)
      with m Some show ?thesis
        by (auto simp: gen_desired_def matched_reqs_def delete_key_def Let_def
            split: option.splits sum.splits)
    next
      case (Inr s1)
      note fr = gen_desired_frame [OF assms(1) Inr]
      have q: "nl s1 = nl s \<and> errList s1 = errList s"
        using Inr m
        by (auto simp: gen_desired_def matched_reqs_def delete_key_def Let_def
            split: option.splits sum.splits)
      have "key_reqs addq cmp (heap s1 current) (heap s1 desired) ks = []"
        using fr rest kn by (simp add: key_reqs_delete)
      from Cons.IH [OF dk this] q Some Inr show ?thesis
        by (simp split: sum.splits prod.splits)
    qed
  qed
qed

lemma range_unwanted:
  "heap (range_keys m (gen_unwanted delq) ks s) = heap s
   \<and> nl (range_keys m (gen_unwanted delq) ks s)
       = send_all (concat (map (\<lambda>k. case map_of (heap s m) k of None \<Rightarrow> [] | Some v \<Rightarrow> [delq v]) ks)) (nl s)
   \<and> errList (range_keys m (gen_unwanted delq) ks s)
       = errList s @ failures (calls_of
           (concat (map (\<lambda>k. case map_of (heap s m) k of None \<Rightarrow> [] | Some v \<Rightarrow> [delq v]) ks)) (nl s))"
proof (induction ks arbitrary: s)
  case Nil
  then show ?case by simp
next
  case (Cons k ks)
  show ?case
  proof (cases "map_of (heap s m) k")
    case None
    with Cons.IH [of s] show ?thesis by simp
  next
    case (Some v)
    with Cons.IH [of "gen_unwanted delq k v s"] show ?thesis
      by (simp add: gen_unwanted_def)
  qed
qed

lemma concat_keys_entries:
  assumes "distinct (map fst D)"
  shows "concat (map (\<lambda>k. case map_of D k of None \<Rightarrow> [] | Some v \<Rightarrow> f k v) (map fst D))
       = concat (map (\<lambda>(k, v). f k v) D)"
proof -
  have "map (\<lambda>k. case map_of D k of None \<Rightarrow> [] | Some v \<Rightarrow> f k v) (map fst D)
      = map (\<lambda>(k, v). f k v) D"
    unfolding map_map
  proof (rule map_cong [OF refl])
    fix kv assume "kv \<in> set D"
    with assms have "map_of D (fst kv) = Some (snd kv)" by simp
    then show "((\<lambda>k. case map_of D k of None \<Rightarrow> [] | Some v \<Rightarrow> f k v) \<circ> fst) kv
        = (case kv of (k, v) \<Rightarrow> f k v)"
      by (simp add: case_prod_beta)
  qed
  then show ?thesis by (rule arg_cong [where f = concat])
qed

lemma key_reqs_entries:
  "distinct (map fst D) \<Longrightarrow> key_reqs addq cmp C D (map fst D) = desired_reqs addq cmp C D"
  unfolding key_reqs_def desired_reqs_def by (rule concat_keys_entries)

lemma remaining_all: "remaining D (map fst D) C = unwanted C D"
  unfolding remaining_def unwanted_def
  by (rule filter_cong) (auto simp: map_of_eq_None_iff image_iff)

lemma distinct_unwanted: "distinct (map fst C) \<Longrightarrow> distinct (map fst (unwanted C D))"
  unfolding unwanted_def by (rule distinct_map_filter)

lemma unwanted_reqs:
  assumes "distinct (map fst U)"
  shows "concat (map (\<lambda>k. case map_of U k of None \<Rightarrow> [] | Some v \<Rightarrow> [delq v]) (map fst U))
       = map (\<lambda>(k, v). delq v) U"
proof -
  have "concat (map (\<lambda>(k, v). [delq v]) U) = map (\<lambda>(k, v). delq v) U"
    by (induction U) auto
  with concat_keys_entries [OF assms, where f = "\<lambda>k v. [delq v]"] show ?thesis
    by (rule trans)
qed

lemma range_keys_as_p:
  "range_keys_p m (\<lambda>k v s. Inr (body k v s)) ks s = Inr (range_keys m body ks s)"
  by (induction ks arbitrary: s) (auto split: option.splits)

lemma gen_apply:
  assumes ne: "current \<noteq> desired"
    and dc: "distinct (map fst (h current))" and dd: "distinct (map fst (h desired))"
    and l1: "range_map_p desired (gen_desired addq cmp current) \<lparr>heap = h, errList = [], nl = n\<rparr> = Inr s1"
  shows "heap (range_map current (gen_unwanted delq) s1) = h(current := unwanted (h current) (h desired))"
    and "nl (range_map current (gen_unwanted delq) s1)
           = send_all (plan addq cmp delq (h current) (h desired)) n"
    and "errList (range_map current (gen_unwanted delq) s1)
           = failures (calls_of (plan addq cmp delq (h current) (h desired)) n)"
proof -
  let ?s0 = "\<lparr>heap = h, errList = [], nl = n\<rparr>"
  from l1 have "range_keys_p desired (gen_desired addq cmp current) (map fst (h desired)) ?s0 = Inr s1"
    by (simp add: range_map_p_def)
  from range_desired_Inr [OF ne _ this] dd
  have h1: "heap s1 = h(current := unwanted (h current) (h desired))"
    and n1: "nl s1 = send_all (desired_reqs addq cmp (h current) (h desired)) n"
    and e1: "errList s1 = failures (calls_of (desired_reqs addq cmp (h current) (h desired)) n)"
    by (simp_all add: key_reqs_entries remaining_all)
  let ?U = "unwanted (h current) (h desired)"
  have du: "distinct (map fst ?U)" using dc by (rule distinct_unwanted)
  have hc: "heap s1 current = ?U" using h1 by simp
  note r = range_unwanted [of current delq "map fst (heap s1 current)" s1]
  show "heap (range_map current (gen_unwanted delq) s1) = h(current := ?U)"
    using r h1 by (simp add: range_map_def)
  show "nl (range_map current (gen_unwanted delq) s1)
           = send_all (plan addq cmp delq (h current) (h desired)) n"
    using r hc n1 unwanted_reqs [OF du, of delq]
    by (simp add: range_map_def plan_def send_all_append)
  show "errList (range_map current (gen_unwanted delq) s1)
           = failures (calls_of (plan addq cmp delq (h current) (h desired)) n)"
    using r hc n1 e1 unwanted_reqs [OF du, of delq]
    by (simp add: range_map_def plan_def calls_of_append)
qed

lemma ApplyRules_desired_gen:
  "Inr (ApplyRules_desired current k v s) = gen_desired ReqRuleAdd no_cmp current k v s"
  by (simp add: ApplyRules_desired_def gen_desired_def no_cmp_def RuleAdd_def split: option.splits)

lemma ApplyFDBs_desired_gen:
  "Inr (ApplyFDBs_desired current k v s) = gen_desired ReqNeighAppend no_cmp current k v s"
  by (simp add: ApplyFDBs_desired_def gen_desired_def no_cmp_def NeighAppend_def split: option.splits)

lemma ApplyRoutes_desired_gen:
  "ApplyRoutes_desired current = gen_desired ReqRouteAdd route_cmp current"
  by (intro ext)
    (auto simp: ApplyRoutes_desired_def gen_desired_def route_cmp_def RouteAdd_def RouteReplace_def
      Let_def split: option.splits sum.splits)

lemma ApplyRules_unwanted_gen: "ApplyRules_unwanted = gen_unwanted ReqRuleDel"
  by (intro ext) (simp add: ApplyRules_unwanted_def gen_unwanted_def RuleDel_def)

lemma ApplyRoutes_unwanted_gen: "ApplyRoutes_unwanted = gen_unwanted ReqRouteDel"
  by (intro ext) (simp add: ApplyRoutes_unwanted_def gen_unwanted_def RouteDel_def)

lemma ApplyFDBs_unwanted_gen: "ApplyFDBs_unwanted = gen_unwanted ReqNeighDel"
  by (intro ext) (simp add: ApplyFDBs_unwanted_def gen_unwanted_def NeighDel_def)

lemma range_map_as_p:
  assumes "\<And>k v s. Inr (body k v s) = bodyp k v s"
  shows "range_map_p m bodyp s = Inr (range_map m body s)"
proof -
  have "bodyp = (\<lambda>k v s. Inr (body k v s))" using assms by (intro ext) simp
  then show ?thesis by (simp add: range_map_p_def range_map_def range_keys_as_p)
qed

lemma ApplyRules_plan:
  assumes "current \<noteq> desired"
    and "distinct (map fst (h current))" and "distinct (map fst (h desired))"
  shows "ApplyRules current desired h n =
           (AsError (failures (calls_of (plan ReqRuleAdd no_cmp ReqRuleDel (h current) (h desired)) n)),
            h(current := unwanted (h current) (h desired)),
            send_all (plan ReqRuleAdd no_cmp ReqRuleDel (h current) (h desired)) n)"
proof -
  let ?s0 = "\<lparr>heap = h, errList = [], nl = n\<rparr>"
  have l1: "range_map_p desired (gen_desired ReqRuleAdd no_cmp current) ?s0
      = Inr (range_map desired (ApplyRules_desired current) ?s0)"
    by (rule range_map_as_p) (rule ApplyRules_desired_gen)
  from gen_apply [OF assms l1, of ReqRuleDel] show ?thesis
    by (simp add: ApplyRules_def Let_def ApplyRules_unwanted_gen)
qed

lemma ApplyFDBs_plan:
  assumes "current \<noteq> desired"
    and "distinct (map fst (h current))" and "distinct (map fst (h desired))"
  shows "ApplyFDBs current desired h n =
           (AsError (failures (calls_of (plan ReqNeighAppend no_cmp ReqNeighDel (h current) (h desired)) n)),
            h(current := unwanted (h current) (h desired)),
            send_all (plan ReqNeighAppend no_cmp ReqNeighDel (h current) (h desired)) n)"
proof -
  let ?s0 = "\<lparr>heap = h, errList = [], nl = n\<rparr>"
  have l1: "range_map_p desired (gen_desired ReqNeighAppend no_cmp current) ?s0
      = Inr (range_map desired (ApplyFDBs_desired current) ?s0)"
    by (rule range_map_as_p) (rule ApplyFDBs_desired_gen)
  from gen_apply [OF assms l1, of ReqNeighDel] show ?thesis
    by (simp add: ApplyFDBs_def Let_def ApplyFDBs_unwanted_gen)
qed

lemma ApplyRoutes_plan:
  assumes "current \<noteq> desired"
    and "distinct (map fst (h current))" and "distinct (map fst (h desired))"
    and "ApplyRoutes current desired h n = Inr (e, h', n')"
  shows "e = AsError (failures (calls_of (plan ReqRouteAdd route_cmp ReqRouteDel (h current) (h desired)) n))"
    and "h' = h(current := unwanted (h current) (h desired))"
    and "n' = send_all (plan ReqRouteAdd route_cmp ReqRouteDel (h current) (h desired)) n"
proof -
  let ?s0 = "\<lparr>heap = h, errList = [], nl = n\<rparr>"
  from assms(4) obtain s1 where
    l1: "range_map_p desired (gen_desired ReqRouteAdd route_cmp current) ?s0 = Inr s1"
    and r: "(e, h', n') = (AsError (errList (range_map current (gen_unwanted ReqRouteDel) s1)),
               heap (range_map current (gen_unwanted ReqRouteDel) s1),
               nl (range_map current (gen_unwanted ReqRouteDel) s1))"
    by (auto simp: ApplyRoutes_def Let_def ApplyRoutes_desired_gen ApplyRoutes_unwanted_gen
        split: sum.splits)
  note g = gen_apply [OF assms(1-3) l1, of ReqRouteDel]
  from r g show "e = AsError (failures (calls_of (plan ReqRouteAdd route_cmp ReqRouteDel (h current) (h desired)) n))"
    by simp
  from r g show "h' = h(current := unwanted (h current) (h desired))" by simp
  from r g show "n' = send_all (plan ReqRouteAdd route_cmp ReqRouteDel (h current) (h desired)) n" by simp
qed

lemma ApplyRoutes_returns:
  assumes "current \<noteq> desired"
    and "distinct (map fst (h desired))"
    and "\<And>k ro v. map_of (h current) k = Some ro \<Longrightarrow> map_of (h desired) k = Some v
           \<Longrightarrow> Route_Dst ro \<noteq> None \<and> Route_Dst v \<noteq> None"
  shows "\<exists>r. ApplyRoutes current desired h n = Inr r"
proof -
  let ?s0 = "\<lparr>heap = h, errList = [], nl = n\<rparr>"
  have "\<exists>s1. range_keys_p desired (gen_desired ReqRouteAdd route_cmp current) (map fst (h desired)) ?s0 = Inr s1"
  proof (rule range_desired_total [OF assms(1,2)])
    fix k ro v
    assume "map_of (heap ?s0 current) k = Some ro" "map_of (heap ?s0 desired) k = Some v"
    with assms(3) [of k ro v] show "route_cmp ro v \<noteq> Inl NilPointerDereference"
      by (auto simp: route_cmp_def routeEqual_def split: option.splits)
  qed
  then show ?thesis
    by (auto simp: ApplyRoutes_def Let_def ApplyRoutes_desired_gen range_map_p_def)
qed

section \<open>The rule key\<close>

text \<open>
  C7. For every rule, \<open>RuleKey\<close> is the text of the rule's source prefix, or the literal
  \<open>0.0.0.0/0\<close> when the rule has no source prefix; so two rules with the same source prefix
  have the same key, whatever their priorities and table ids.
\<close>

theorem RuleKey_source_prefix:
  "RuleKey net_str rule = (case Rule_Src rule of None \<Rightarrow> ''0.0.0.0/0'' | Some n \<Rightarrow> net_str n)
   \<and> (Rule_Src r1 = Rule_Src r2 \<longrightarrow> RuleKey net_str r1 = RuleKey net_str r2)"
  by (simp add: RuleKey_def Let_def)

theorem RuleKey_source_prefix_witness:
  "Rule_Src rule_a = Rule_Src rule_b
   \<and> Rule_Priority rule_a \<noteq> Rule_Priority rule_b \<and> Rule_Table rule_a \<noteq> Rule_Table rule_b
   \<and> RuleKey IPv4Net_String rule_a = ''10.1.0.0/16''
   \<and> RuleKey IPv4Net_String rule_b = ''10.1.0.0/16''
   \<and> RuleKey IPv4Net_String (NewRavenRule 100 101) = ''0.0.0.0/0''"
  using RuleKey_source_prefix [of IPv4Net_String rule_a rule_a rule_b]
    RuleKey_source_prefix [of IPv4Net_String "NewRavenRule 100 101" rule_a rule_b]
  by (simp add: IPv4Net_String_def IPv4_String_def NewRavenRule_def rule_a_def rule_b_def
      net_10_1_def)

section \<open>The error list follows the calls\<close>

lemma logged_start: "logged (sent n) \<lparr>heap = h, errList = [], nl = n\<rparr>"
  by (simp add: logged_def)

lemma logged_issued: "logged (sent n) s \<Longrightarrow> errList s = failures (issued n (nl s))"
  by (auto simp: logged_def issued_def)

lemma logged_record_err:
  "logged pre s \<Longrightarrow> nl s0 = nl s \<Longrightarrow> errList s0 = errList s
     \<Longrightarrow> logged pre (record_err (netlink_request q (nl s)) s0)"
  by (auto simp: logged_def)

lemma logged_heap_update [simp]: "logged pre (s\<lparr>heap := x\<rparr>) = logged pre s"
  by (simp add: logged_def)

lemma logged_gen_desired:
  assumes "logged pre s"
  shows "case gen_desired addq cmp current k v s of
           Inl (p, s') \<Rightarrow> logged pre s' | Inr s' \<Rightarrow> logged pre s'"
  using assms
  by (auto simp: gen_desired_def Let_def delete_key_def
      intro!: logged_record_err split: option.splits sum.splits)

lemma logged_range_desired:
  assumes "logged pre s"
  shows "case range_keys_p m (gen_desired addq cmp current) ks s of
           Inl (p, s') \<Rightarrow> logged pre s' | Inr s' \<Rightarrow> logged pre s'"
  using assms
proof (induction ks arbitrary: s)
  case Nil
  then show ?case by simp
next
  case (Cons k ks)
  show ?case
  proof (cases "map_of (heap s m) k")
    case None
    with Cons show ?thesis by simp
  next
    case (Some v)
    show ?thesis
    proof (cases "gen_desired addq cmp current k v s")
      case (Inl ps)
      with logged_gen_desired [OF Cons.prems, of addq cmp current k v] Some
      show ?thesis by simp
    next
      case (Inr s1)
      with logged_gen_desired [OF Cons.prems, of addq cmp current k v]
      have "logged pre s1" by simp
      from Cons.IH [OF this] Some Inr show ?thesis by simp
    qed
  qed
qed

lemma logged_range_unwanted:
  "logged pre s \<Longrightarrow> logged pre (range_keys m (gen_unwanted delq) ks s)"
proof (induction ks arbitrary: s)
  case Nil
  then show ?case by simp
next
  case (Cons k ks)
  then show ?case
    by (auto simp: gen_unwanted_def intro!: Cons.IH logged_record_err split: option.splits)
qed

lemma AsError_None_iff: "AsError (failures cs) = None \<longleftrightarrow> (\<forall>c \<in> set cs. snd c = None)"
  by (simp add: AsError_def failures_empty_iff)

lemma AsError_Some: "AsError el = Some x \<Longrightarrow> x = el"
  by (simp add: AsError_def split: if_splits)

lemma ApplyRules_errors:
  "ApplyRules current desired h n = (e, h', n') \<Longrightarrow> e = AsError (failures (issued n n'))"
proof -
  assume a: "ApplyRules current desired h n = (e, h', n')"
  let ?s0 = "\<lparr>heap = h, errList = [], nl = n\<rparr> :: Rule frame"
  let ?s1 = "range_map desired (ApplyRules_desired current) ?s0"
  have "range_map_p desired (gen_desired ReqRuleAdd no_cmp current) ?s0 = Inr ?s1"
    by (rule range_map_as_p) (rule ApplyRules_desired_gen)
  with logged_range_desired [OF logged_start, of n desired ReqRuleAdd no_cmp current "map fst (h desired)" h]
  have "logged (sent n) ?s1" by (simp add: range_map_p_def)
  then have "logged (sent n) (range_map current ApplyRules_unwanted ?s1)"
    unfolding range_map_def [of current] ApplyRules_unwanted_gen by (rule logged_range_unwanted)
  from logged_issued [OF this] a show ?thesis
    by (auto simp: ApplyRules_def Let_def)
qed

lemma ApplyFDBs_errors:
  "ApplyFDBs current desired h n = (e, h', n') \<Longrightarrow> e = AsError (failures (issued n n'))"
proof -
  assume a: "ApplyFDBs current desired h n = (e, h', n')"
  let ?s0 = "\<lparr>heap = h, errList = [], nl = n\<rparr> :: Neigh frame"
  let ?s1 = "range_map desired (ApplyFDBs_desired current) ?s0"
  have "range_map_p desired (gen_desired ReqNeighAppend no_cmp current) ?s0 = Inr ?s1"
    by (rule range_map_as_p) (rule ApplyFDBs_desired_gen)
  with logged_range_desired [OF logged_start, of n desired ReqNeighAppend no_cmp current "map fst (h desired)" h]
  have "logged (sent n) ?s1" by (simp add: range_map_p_def)
  then have "logged (sent n) (range_map current ApplyFDBs_unwanted ?s1)"
    unfolding range_map_def [of current] ApplyFDBs_unwanted_gen by (rule logged_range_unwanted)
  from logged_issued [OF this] a show ?thesis
    by (auto simp: ApplyFDBs_def Let_def)
qed

lemma ApplyRoutes_errors:
  "ApplyRoutes current desired h n = Inr (e, h', n') \<Longrightarrow> e = AsError (failures (issued n n'))"
proof -
  assume a: "ApplyRoutes current desired h n = Inr (e, h', n')"
  let ?s0 = "\<lparr>heap = h, errList = [], nl = n\<rparr> :: Route frame"
  from a obtain s1 where
    l1: "range_map_p desired (gen_desired ReqRouteAdd route_cmp current) ?s0 = Inr s1"
    and r: "e = AsError (errList (range_map current (gen_unwanted ReqRouteDel) s1))"
       "n' = nl (range_map current (gen_unwanted ReqRouteDel) s1)"
    by (auto simp: ApplyRoutes_def Let_def ApplyRoutes_desired_gen ApplyRoutes_unwanted_gen
        split: sum.splits)
  from l1 logged_range_desired [OF logged_start, of n desired ReqRouteAdd route_cmp current "map fst (h desired)" h]
  have "logged (sent n) s1" by (simp add: range_map_p_def)
  then have "logged (sent n) (range_map current (gen_unwanted ReqRouteDel) s1)"
    unfolding range_map_def [of current] by (rule logged_range_unwanted)
  from logged_issued [OF this] r show ?thesis by simp
qed

lemma aggregate_iff:
  "e = AsError (failures cs) \<Longrightarrow>
     (e = None \<longleftrightarrow> (\<forall>c \<in> set cs. snd c = None)) \<and> (\<forall>el. e = Some el \<longrightarrow> el = failures cs)"
  by (simp add: AsError_def failures_empty_iff)

section \<open>Unfolding rules for the examples\<close>

lemmas ex_defs = quiet_def first_fails_def rules_heap_def routes_heap_def fdb_heap_def

lemmas run_defs = range_map_def range_map_p_def
  record_err_def delete_key_def netlink_request_def Append_def AsError_def
  issued_def Let_def

lemmas rules_defs = ApplyRules_def ApplyRules_desired_def ApplyRules_unwanted_def RuleAdd_def RuleDel_def

lemmas routes_defs = ApplyRoutes_def ApplyRoutes_desired_def ApplyRoutes_unwanted_def RouteAdd_def
  RouteReplace_def RouteDel_def routeEqual_def IP_Equal_def bytes_Equal_def route_to_def

lemmas fdb_defs = ApplyFDBs_def ApplyFDBs_desired_def ApplyFDBs_unwanted_def NeighAppend_def NeighDel_def

section \<open>The requests of a call\<close>

lemma two_mapsD:
  "two_maps h current desired \<Longrightarrow> current \<noteq> desired"
  "two_maps h current desired \<Longrightarrow> distinct (map fst (h current))"
  "two_maps h current desired \<Longrightarrow> distinct (map fst (h desired))"
  by (simp_all add: two_maps_def)

lemma set_plan:
  "q \<in> set (plan addq cmp delq C D) \<longleftrightarrow>
     (\<exists>(k, v) \<in> set D. q \<in> set (matched_reqs addq cmp C k v))
     \<or> (\<exists>(k, x) \<in> set C. k \<notin> fst ` set D \<and> q = delq x)"
  by (auto simp: plan_def desired_reqs_def unwanted_def)

lemma plan_add:
  "map_of D k = Some v \<Longrightarrow> map_of C k = None \<Longrightarrow> addq v \<in> set (plan addq cmp delq C D)"
  unfolding set_plan by (rule disjI1) (force simp: matched_reqs_def dest: map_of_SomeD)

lemma plan_del:
  "map_of C k = Some x \<Longrightarrow> map_of D k = None \<Longrightarrow> delq x \<in> set (plan addq cmp delq C D)"
  unfolding set_plan by (rule disjI2) (force simp: map_of_eq_None_iff dest: map_of_SomeD)

lemma fst_issued_send_all: "fst ` set (issued n (send_all P n)) = set P"
  by (simp flip: set_map)

lemma keyed_byD: "keyed_by key m \<Longrightarrow> (k, v) \<in> set m \<Longrightarrow> key v = k"
  by (auto simp: keyed_by_def list_all_iff)

lemma matched_reqs_no_cmp:
  "q \<in> set (matched_reqs addq no_cmp C k v) \<longleftrightarrow> map_of C k = None \<and> q = addq v"
  by (auto simp: matched_reqs_def no_cmp_def split: option.splits)

section \<open>One map as both arguments\<close>

text \<open>
  When the same map is passed as current and as desired, \<open>ApplyRules\<close> and \<open>ApplyFDBs\<close>
  find every key of the map in it: they remove every entry, send nothing and return nil.
\<close>

lemma filter_visited_absent:
  "map_of C k = None \<Longrightarrow> filter (\<lambda>(k', v). k' \<notin> set (k # ks)) C = filter (\<lambda>(k', v). k' \<notin> set ks) C"
  by (rule filter_cong) (auto simp: map_of_eq_None_iff image_iff)

lemma filter_visited_delete:
  "filter (\<lambda>(k', v). k' \<notin> set ks) (AList.delete k C) = filter (\<lambda>(k', v). k' \<notin> set (k # ks)) C"
  unfolding AList.delete_eq filter_filter by (rule filter_cong) auto

lemma alias_desired:
  "range_keys_p m (gen_desired addq no_cmp m) ks s
     = Inr (s\<lparr>heap := (heap s)(m := filter (\<lambda>(k, v). k \<notin> set ks) (heap s m))\<rparr>)"
proof (induction ks arbitrary: s)
  case Nil
  then show ?case by simp
next
  case (Cons k ks)
  show ?case
  proof (cases "map_of (heap s m) k")
    case None
    with Cons.IH [of s] show ?thesis
      by (simp only: range_keys_p.simps option.case filter_visited_absent)
  next
    case (Some v)
    have b: "gen_desired addq no_cmp m k v s = Inr (delete_key m k s)"
      using Some by (simp add: gen_desired_def no_cmp_def)
    have "range_keys_p m (gen_desired addq no_cmp m) (k # ks) s
        = range_keys_p m (gen_desired addq no_cmp m) ks (delete_key m k s)"
      using Some b by simp
    also have "\<dots> = Inr (s\<lparr>heap := (heap s)(m := filter (\<lambda>(k', v). k' \<notin> set (k # ks)) (heap s m))\<rparr>)"
      unfolding Cons.IH by (simp add: delete_key_def filter_visited_delete)
    finally show ?thesis .
  qed
qed

lemma filter_all_keys: "filter (\<lambda>(k, v). k \<notin> fst ` set C) C = []"
  by (force simp: filter_empty_conv)

lemma ApplyRules_alias: "ApplyRules m m h n = (None, h(m := []), n)"
proof -
  let ?s0 = "\<lparr>heap = h, errList = [], nl = n\<rparr> :: Rule frame"
  have "range_map_p m (gen_desired ReqRuleAdd no_cmp m) ?s0
      = Inr (range_map m (ApplyRules_desired m) ?s0)"
    by (rule range_map_as_p) (rule ApplyRules_desired_gen)
  then have "range_map m (ApplyRules_desired m) ?s0 = ?s0\<lparr>heap := h(m := [])\<rparr>"
    by (simp add: range_map_p_def alias_desired filter_all_keys)
  then show ?thesis
    by (simp add: ApplyRules_def Let_def range_map_def AsError_def)
qed

lemma ApplyFDBs_alias: "ApplyFDBs m m h n = (None, h(m := []), n)"
proof -
  let ?s0 = "\<lparr>heap = h, errList = [], nl = n\<rparr> :: Neigh frame"
  have "range_map_p m (gen_desired ReqNeighAppend no_cmp m) ?s0
      = Inr (range_map m (ApplyFDBs_desired m) ?s0)"
    by (rule range_map_as_p) (rule ApplyFDBs_desired_gen)
  then have "range_map m (ApplyFDBs_desired m) ?s0 = ?s0\<lparr>heap := h(m := [])\<rparr>"
    by (simp add: range_map_p_def alias_desired filter_all_keys)
  then show ?thesis
    by (simp add: ApplyFDBs_def Let_def range_map_def AsError_def)
qed

text \<open>
  \<open>ApplyRoutes\<close> compares each route of the map with itself, so it does the same when
  every route of the map has a destination.
\<close>

lemma routeEqual_refl: "routeEqual v v = (case Route_Dst v of None \<Rightarrow> Inl NilPointerDereference | Some d \<Rightarrow> Inr True)"
  by (simp add: routeEqual_def IP_Equal_def bytes_Equal_def split: option.splits)

lemma map_of_delete_Some:
  "map_of (AList.delete k C) k' = Some v \<Longrightarrow> map_of C k' = Some v"
  by (cases "k' = k") (simp_all add: AList.delete_conv')

lemma alias_desired_cmp:
  assumes "\<And>k v. map_of (heap s m) k = Some v \<Longrightarrow> cmp v v = Inr None"
  shows "range_keys_p m (gen_desired addq cmp m) ks s
     = Inr (s\<lparr>heap := (heap s)(m := filter (\<lambda>(k, v). k \<notin> set ks) (heap s m))\<rparr>)"
  using assms
proof (induction ks arbitrary: s)
  case Nil
  then show ?case by simp
next
  case (Cons k ks)
  show ?case
  proof (cases "map_of (heap s m) k")
    case None
    have ih: "range_keys_p m (gen_desired addq cmp m) ks s
        = Inr (s\<lparr>heap := (heap s)(m := filter (\<lambda>(k, v). k \<notin> set ks) (heap s m))\<rparr>)"
      by (rule Cons.IH) (rule Cons.prems)
    from None show ?thesis
      by (simp only: range_keys_p.simps option.case filter_visited_absent ih)
  next
    case (Some v)
    have c: "cmp v v = Inr None" using Some by (rule Cons.prems)
    have b: "gen_desired addq cmp m k v s = Inr (delete_key m k s)"
      by (simp add: gen_desired_def Some c)
    have i: "cmp v' v' = Inr None" if a: "map_of (heap (delete_key m k s) m) k' = Some v'" for k' v'
    proof -
      from a have "map_of (AList.delete k (heap s m)) k' = Some v'" by (simp add: delete_key_def)
      then have "map_of (heap s m) k' = Some v'" by (rule map_of_delete_Some)
      then show ?thesis by (rule Cons.prems)
    qed
    have "range_keys_p m (gen_desired addq cmp m) (k # ks) s
        = range_keys_p m (gen_desired addq cmp m) ks (delete_key m k s)"
      using Some b by simp
    also have "\<dots> = Inr ((delete_key m k s)\<lparr>heap := (heap (delete_key m k s))
                (m := filter (\<lambda>(k', v). k' \<notin> set ks) (heap (delete_key m k s) m))\<rparr>)"
      by (rule Cons.IH) (rule i)
    also have "\<dots> = Inr (s\<lparr>heap := (heap s)(m := filter (\<lambda>(k', v). k' \<notin> set (k # ks)) (heap s m))\<rparr>)"
      by (simp add: delete_key_def filter_visited_delete)
    finally show ?thesis .
  qed
qed

lemma ApplyRoutes_alias:
  assumes "\<And>k v. map_of (h m) k = Some v \<Longrightarrow> Route_Dst v \<noteq> None"
  shows "ApplyRoutes m m h n = Inr (None, h(m := []), n)"
proof -
  let ?s0 = "\<lparr>heap = h, errList = [], nl = n\<rparr> :: Route frame"
  have c: "\<And>k v. map_of (heap ?s0 m) k = Some v \<Longrightarrow> route_cmp v v = Inr None"
    using assms by (auto simp: route_cmp_def routeEqual_refl split: option.splits)
  have "range_map_p m (gen_desired ReqRouteAdd route_cmp m) ?s0 = Inr (?s0\<lparr>heap := h(m := [])\<rparr>)"
    unfolding range_map_p_def
    by (simp only: alias_desired_cmp [of ?s0 m route_cmp, OF c]) (simp add: filter_all_keys)
  then show ?thesis
    by (simp add: ApplyRoutes_def Let_def ApplyRoutes_desired_gen range_map_def AsError_def)
qed

section \<open>Continue on error\<close>

text \<open>
  C3. \<open>ApplyRules\<close> continues after a failure. Whatever the transport answers to each
  request, the add for every desired rule whose key current lacks and the delete for every
  current rule whose key desired lacks are sent; the sequence of requests is the same for
  every endpoint, so no failure of one request keeps another from being sent.
\<close>

theorem ApplyRules_continue_on_error:
  assumes "distinct (map fst (h current))" and "distinct (map fst (h desired))"
    and "ApplyRules current desired h n = (e, h', n')"
  shows "(\<forall>k v. map_of (h desired) k = Some v \<and> map_of (h current) k = None
            \<longrightarrow> ReqRuleAdd v \<in> fst ` set (issued n n'))
       \<and> (\<forall>k v. map_of (h current) k = Some v \<and> map_of (h desired) k = None
            \<longrightarrow> ReqRuleDel v \<in> fst ` set (issued n n'))
       \<and> (\<forall>n2. map fst (issued n2 (snd (snd (ApplyRules current desired h n2))))
                 = map fst (issued n n'))"
proof (cases "current = desired")
  case True
  with assms(3) show ?thesis by (simp add: ApplyRules_alias)
next
  case False
  let ?P = "plan ReqRuleAdd no_cmp ReqRuleDel (h current) (h desired)"
  note p = ApplyRules_plan [OF False assms(1,2)]
  from p [of n] assms(3) have n': "n' = send_all ?P n" by simp
  have "map fst (issued n2 (snd (snd (ApplyRules current desired h n2)))) = map fst (issued n n')" for n2
    using p [of n2] n' by simp
  then show ?thesis
    unfolding n' fst_issued_send_all by (auto intro: plan_add plan_del)
qed

theorem ApplyRules_continue_on_error_witness:
  "distinct (map fst (rules_heap 0)) \<and> distinct (map fst (rules_heap 1))
   \<and> fst (ApplyRules 0 1 rules_heap first_fails) = Some [Err ''file exists'']
   \<and> issued first_fails (snd (snd (ApplyRules 0 1 rules_heap first_fails)))
     = [(ReqRuleAdd rule_d, Some (Err ''file exists'')), (ReqRuleAdd rule_e, None),
        (ReqRuleDel rule_a, None)]
   \<and> map fst (issued quiet (snd (snd (ApplyRules 0 1 rules_heap quiet))))
     = map fst (issued first_fails (snd (snd (ApplyRules 0 1 rules_heap first_fails))))"
proof -
  let ?r = "ApplyRules 0 1 rules_heap first_fails"
  have m: "distinct (map fst (rules_heap 0))" "distinct (map fst (rules_heap 1))"
    by (simp_all add: rules_heap_def)
  have r: "?r = (fst ?r, fst (snd ?r), snd (snd ?r))"
    by simp
  have ev: "fst ?r = Some [Err ''file exists'']
      \<and> issued first_fails (snd (snd ?r))
        = [(ReqRuleAdd rule_d, Some (Err ''file exists'')), (ReqRuleAdd rule_e, None),
           (ReqRuleDel rule_a, None)]"
    by (simp add: rules_defs run_defs ex_defs)
  from ApplyRules_continue_on_error [OF m r]
  have "map fst (issued quiet (snd (snd (ApplyRules 0 1 rules_heap quiet))))
      = map fst (issued first_fails (snd (snd ?r)))"
    by blast
  with m ev show ?thesis by blast
qed

section \<open>The caller's maps\<close>

text \<open>
  C10 as amended. When current and desired are two different maps, each converge function
  that returns leaves in the caller's current map exactly the entries whose key desired
  does not hold (every key found on both sides has been removed from it), a delete was
  sent for each entry left, and the desired map and every other map are unchanged.
\<close>

theorem Apply_current_in_place:
  "(two_maps hr current desired \<and> ApplyRules current desired hr n = (er, hr', nr)
      \<longrightarrow> hr' = hr(current := filter (\<lambda>(k, v). k \<notin> fst ` set (hr desired)) (hr current))
        \<and> hr' desired = hr desired
        \<and> (\<forall>(k, v) \<in> set (hr' current). ReqRuleDel v \<in> fst ` set (issued n nr)))
   \<and> (two_maps ho current desired \<and> ApplyRoutes current desired ho n = Inr (eo, ho', no)
      \<longrightarrow> ho' = ho(current := filter (\<lambda>(k, v). k \<notin> fst ` set (ho desired)) (ho current))
        \<and> ho' desired = ho desired
        \<and> (\<forall>(k, v) \<in> set (ho' current). ReqRouteDel v \<in> fst ` set (issued n no)))
   \<and> (two_maps hf current desired \<and> ApplyFDBs current desired hf n = (ef, hf', nf)
      \<longrightarrow> hf' = hf(current := filter (\<lambda>(k, v). k \<notin> fst ` set (hf desired)) (hf current))
        \<and> hf' desired = hf desired
        \<and> (\<forall>(k, v) \<in> set (hf' current). ReqNeighDel v \<in> fst ` set (issued n nf)))"
proof (intro conjI impI; elim conjE)
  assume m: "two_maps hr current desired" and r: "ApplyRules current desired hr n = (er, hr', nr)"
  from ApplyRules_plan [OF two_mapsD [OF m], of n] r two_mapsD(1) [OF m]
  show "hr' = hr(current := filter (\<lambda>(k, v). k \<notin> fst ` set (hr desired)) (hr current))"
    and "hr' desired = hr desired"
    and "\<forall>(k, v) \<in> set (hr' current). ReqRuleDel v \<in> fst ` set (issued n nr)"
    by (auto simp: unwanted_def set_plan simp flip: set_map)
next
  assume m: "two_maps ho current desired" and r: "ApplyRoutes current desired ho n = Inr (eo, ho', no)"
  from ApplyRoutes_plan [OF two_mapsD [OF m] r] two_mapsD(1) [OF m]
  show "ho' = ho(current := filter (\<lambda>(k, v). k \<notin> fst ` set (ho desired)) (ho current))"
    and "ho' desired = ho desired"
    and "\<forall>(k, v) \<in> set (ho' current). ReqRouteDel v \<in> fst ` set (issued n no)"
    by (auto simp: unwanted_def set_plan simp flip: set_map)
next
  assume m: "two_maps hf current desired" and r: "ApplyFDBs current desired hf n = (ef, hf', nf)"
  from ApplyFDBs_plan [OF two_mapsD [OF m], of n] r two_mapsD(1) [OF m]
  show "hf' = hf(current := filter (\<lambda>(k, v). k \<notin> fst ` set (hf desired)) (hf current))"
    and "hf' desired = hf desired"
    and "\<forall>(k, v) \<in> set (hf' current). ReqNeighDel v \<in> fst ` set (issued n nf)"
    by (auto simp: unwanted_def set_plan simp flip: set_map)
qed

theorem Apply_current_in_place_witness:
  "two_maps rules_heap 0 1 \<and> two_maps routes_heap 0 1 \<and> two_maps fdb_heap 0 1
   \<and> fst (snd (ApplyRules 0 1 rules_heap quiet)) = rules_heap(0 := [(''10.1.0.0/16'', rule_a)])
   \<and> (case ApplyRoutes 0 1 routes_heap quiet of
        Inl _ \<Rightarrow> False
      | Inr (e, h', n') \<Rightarrow>
          h' = routes_heap(0 := [(''10.0.2.0/24-100'', route_to 2 [1, 1, 1, 1] [])])
          \<and> ReqRouteDel (route_to 2 [1, 1, 1, 1] []) \<in> fst ` set (issued quiet n'))
   \<and> fst (snd (ApplyFDBs 0 1 fdb_heap quiet))
       = fdb_heap(0 := [(''3.3.3.3'', fdb_to 3 [0, 0, 0, 0, 0, 0])])"
proof -
  let ?r = "ApplyRules 0 1 rules_heap quiet"
  let ?f = "ApplyFDBs 0 1 fdb_heap quiet"
  have m: "two_maps rules_heap 0 1" "two_maps routes_heap 0 1" "two_maps fdb_heap 0 1"
    by (simp_all add: two_maps_def rules_heap_def routes_heap_def fdb_heap_def)
  have r: "?r = (fst ?r, fst (snd ?r), snd (snd ?r))" and f: "?f = (fst ?f, fst (snd ?f), snd (snd ?f))"
    by simp_all
  have "\<exists>x. ApplyRoutes 0 1 routes_heap quiet = Inr x"
    by (simp add: routes_defs run_defs ex_defs)
  then obtain e h' n' where o: "ApplyRoutes 0 1 routes_heap quiet = Inr (e, h', n')"
    by auto
  note t = Apply_current_in_place [where current = 0 and desired = 1 and n = quiet]
  from t [where hr = rules_heap and er = "fst ?r" and hr' = "fst (snd ?r)" and nr = "snd (snd ?r)",
      THEN conjunct1] m(1) r
  have 1: "fst (snd ?r) = rules_heap(0 := [(''10.1.0.0/16'', rule_a)])"
    by (simp add: rules_heap_def)
  from t [where ho = routes_heap and eo = e and ho' = h' and no = n', THEN conjunct2, THEN conjunct1]
    m(2) o
  have 2: "h' = routes_heap(0 := [(''10.0.2.0/24-100'', route_to 2 [1, 1, 1, 1] [])])
      \<and> ReqRouteDel (route_to 2 [1, 1, 1, 1] []) \<in> fst ` set (issued quiet n')"
    by (auto simp: routes_heap_def)
  from t [where hf = fdb_heap and ef = "fst ?f" and hf' = "fst (snd ?f)" and nf = "snd (snd ?f)",
      THEN conjunct2, THEN conjunct2] m(3) f
  have 3: "fst (snd ?f) = fdb_heap(0 := [(''3.3.3.3'', fdb_to 3 [0, 0, 0, 0, 0, 0])])"
    by (simp add: fdb_heap_def)
  from m 1 2 3 o show ?thesis by simp
qed

theorem Apply_current_in_place_counterexample:
  "\<not> (fst (snd (ApplyRules 0 0 alias_heap quiet)) 0 = alias_heap 0)
   \<and> fst (snd (ApplyRules 0 0 alias_heap quiet)) 0 = []
   \<and> issued quiet (snd (snd (ApplyRules 0 0 alias_heap quiet))) = []"
  by (simp add: rules_defs run_defs ex_defs alias_heap_def)

section \<open>The aggregate error\<close>

text \<open>
  \<open>ApplyRules\<close> and \<open>ApplyFDBs\<close> always return, and they return nil exactly when every
  request they sent succeeded, and otherwise the list of the errors of the failed requests,
  all of them, in the order the requests were sent. \<open>ApplyRoutes\<close> returns, with the same
  result, whenever the two routes of each key that both maps hold have a destination.
\<close>

lemma ApplyRules_returns_aggregate:
  "\<exists>e h' n'. ApplyRules current desired h n = (e, h', n')
     \<and> (e = None \<longleftrightarrow> (\<forall>c \<in> set (issued n n'). snd c = None))
     \<and> (\<forall>el. e = Some el \<longrightarrow> el = failures (issued n n'))"
proof -
  obtain e h' n' where r: "ApplyRules current desired h n = (e, h', n')"
    by (cases "ApplyRules current desired h n") auto
  from aggregate_iff [OF ApplyRules_errors [OF r]] r show ?thesis by blast
qed

lemma ApplyFDBs_returns_aggregate:
  "\<exists>e h' n'. ApplyFDBs current desired h n = (e, h', n')
     \<and> (e = None \<longleftrightarrow> (\<forall>c \<in> set (issued n n'). snd c = None))
     \<and> (\<forall>el. e = Some el \<longrightarrow> el = failures (issued n n'))"
proof -
  obtain e h' n' where r: "ApplyFDBs current desired h n = (e, h', n')"
    by (cases "ApplyFDBs current desired h n") auto
  from aggregate_iff [OF ApplyFDBs_errors [OF r]] r show ?thesis by blast
qed

lemma ApplyRoutes_returns_aggregate:
  assumes "distinct (map fst (h desired))"
    and "\<And>k ro v. map_of (h current) k = Some ro \<Longrightarrow> map_of (h desired) k = Some v
           \<Longrightarrow> Route_Dst ro \<noteq> None \<and> Route_Dst v \<noteq> None"
  shows "\<exists>e h' n'. ApplyRoutes current desired h n = Inr (e, h', n')
     \<and> (e = None \<longleftrightarrow> (\<forall>c \<in> set (issued n n'). snd c = None))
     \<and> (\<forall>el. e = Some el \<longrightarrow> el = failures (issued n n'))"
proof -
  have "\<exists>r. ApplyRoutes current desired h n = Inr r"
  proof (cases "current = desired")
    case True
    have "ApplyRoutes desired desired h n = Inr (None, h(desired := []), n)"
    proof (rule ApplyRoutes_alias)
      fix k v
      assume "map_of (h desired) k = Some v"
      with assms(2) [of k v v] True show "Route_Dst v \<noteq> None" by simp
    qed
    with True show ?thesis by simp
  next
    case False
    from False assms show ?thesis by (rule ApplyRoutes_returns)
  qed
  then obtain e h' n' where r: "ApplyRoutes current desired h n = Inr (e, h', n')"
    by (elim exE) (case_tac r, simp)
  from aggregate_iff [OF ApplyRoutes_errors [OF r]] r show ?thesis by blast
qed

text \<open>
  C4 at a default route. Current holds a default route (nil \<open>Dst\<close>) under the key
  \<open><nil>-100\<close>; desired holds a route to \<open>10.0.1.0/24\<close>, which current lacks, and under
  \<open><nil>-100\<close> a default route with another gateway. When the range over desired reaches
  the new route first, \<open>ApplyRoutes\<close> sends its add and then panics in \<open>routeEqual\<close> at the
  default route: on an endpoint that fails the add, the error is in \<open>errList\<close> and is never
  returned; on an endpoint where the add succeeds, nil is not returned either. When the
  range reaches the default route first, \<open>ApplyRoutes\<close> panics before it sends anything.
\<close>

theorem ApplyRoutes_panic_drops_errors:
  "RouteKey IPv4Net_String (route_to 1 [1, 1, 1, 1] []) = ''10.0.1.0/24-100''
   \<and> RouteKey IPv4Net_String (default_via [1, 1, 1, 1]) = ''<nil>-100''
   \<and> RouteKey IPv4Net_String (default_via [2, 2, 2, 2]) = ''<nil>-100''
   \<and> ApplyRoutes 0 1 mixed_heap first_fails
       = Inl (NilPointerDereference,
              \<lparr>heap = mixed_heap(0 := []), errList = [Err ''file exists''],
               nl = first_fails\<lparr>sent := [(ReqRouteAdd (route_to 1 [1, 1, 1, 1] []), Some (Err ''file exists''))]\<rparr>\<rparr>)
   \<and> ApplyRoutes 0 1 mixed_heap quiet
       = Inl (NilPointerDereference,
              \<lparr>heap = mixed_heap(0 := []), errList = [],
               nl = quiet\<lparr>sent := [(ReqRouteAdd (route_to 1 [1, 1, 1, 1] []), None)]\<rparr>\<rparr>)
   \<and> ApplyRoutes 0 2 mixed_heap first_fails
       = Inl (NilPointerDereference, \<lparr>heap = mixed_heap(0 := []), errList = [], nl = first_fails\<rparr>)"
  by (simp add: routes_defs run_defs ex_defs mixed_heap_def default_via_def RouteKey_def fmt_d_def
      IPv4Net_String_def IPv4_String_def)

section \<open>FDB entries are never replaced\<close>

text \<open>
  C8. \<open>ApplyFDBs\<close> sends only appends and deletes, and for a key (the text of an IP address)
  that current and desired both hold it sends nothing: no request it sends carries an entry
  with that IP, in particular neither an append of the desired entry nor a delete of the
  current one, whatever the hardware addresses of the two entries are.
\<close>

theorem ApplyFDBs_never_replaces:
  assumes "distinct (map fst (h current))" and "distinct (map fst (h desired))"
    and "keyed_by (\<lambda>x. ip_str (Neigh_IP x)) (h current)"
    and "keyed_by (\<lambda>x. ip_str (Neigh_IP x)) (h desired)"
    and "ApplyFDBs current desired h n = (e, h', n')"
    and "map_of (h current) k = Some ro" and "map_of (h desired) k = Some v"
  shows "(\<forall>q \<in> fst ` set (issued n n').
            \<exists>x. (q = ReqNeighAppend x \<or> q = ReqNeighDel x) \<and> ip_str (Neigh_IP x) \<noteq> k)
       \<and> ReqNeighAppend v \<notin> fst ` set (issued n n')
       \<and> ReqNeighDel ro \<notin> fst ` set (issued n n')"
proof (cases "current = desired")
  case True
  with assms(5) have "issued n n' = []" by (simp add: ApplyFDBs_alias)
  then show ?thesis by simp
next
  case False
  let ?P = "plan ReqNeighAppend no_cmp ReqNeighDel (h current) (h desired)"
  from ApplyFDBs_plan [OF False assms(1,2), of n] assms(5)
  have n': "n' = send_all ?P n" by simp
  have kc: "k \<in> fst ` set (h current)" and kd: "k \<in> fst ` set (h desired)"
    using assms(6,7) by (auto dest: map_of_SomeD intro: rev_image_eqI)
  have all: "\<exists>x. (q = ReqNeighAppend x \<or> q = ReqNeighDel x) \<and> ip_str (Neigh_IP x) \<noteq> k"
    if "q \<in> set ?P" for q
    using that unfolding set_plan
  proof (elim disjE bexE)
    fix kv assume kv: "kv \<in> set (h desired)"
      and q: "case kv of (k', v') \<Rightarrow> q \<in> set (matched_reqs ReqNeighAppend no_cmp (h current) k' v')"
    obtain k' v' where [simp]: "kv = (k', v')" by (cases kv)
    from q have a: "map_of (h current) k' = None" and b: "q = ReqNeighAppend v'"
      by (simp_all add: matched_reqs_no_cmp)
    from keyed_byD [OF assms(4)] kv have "ip_str (Neigh_IP v') = k'" by simp
    moreover from a assms(6) have "k' \<noteq> k" by auto
    ultimately show ?thesis using b by blast
  next
    fix kx assume kx: "kx \<in> set (h current)"
      and q: "case kx of (k', x) \<Rightarrow> k' \<notin> fst ` set (h desired) \<and> q = ReqNeighDel x"
    obtain k' x where [simp]: "kx = (k', x)" by (cases kx)
    from q have a: "k' \<notin> fst ` set (h desired)" and b: "q = ReqNeighDel x" by simp_all
    from keyed_byD [OF assms(3)] kx have "ip_str (Neigh_IP x) = k'" by simp
    moreover from a kd have "k' \<noteq> k" by auto
    ultimately show ?thesis using b by blast
  qed
  have kv: "ip_str (Neigh_IP v) = k" and kro: "ip_str (Neigh_IP ro) = k"
    using keyed_byD [OF assms(4)] keyed_byD [OF assms(3)] assms(6,7)
    by (auto dest: map_of_SomeD)
  from all kv kro show ?thesis
    unfolding n' fst_issued_send_all by fastforce
qed

theorem ApplyFDBs_never_replaces_witness:
  "distinct (map fst (fdb_heap 0)) \<and> distinct (map fst (fdb_heap 1))
   \<and> keyed_by (\<lambda>x. IPv4_String (Neigh_IP x)) (fdb_heap 0)
   \<and> keyed_by (\<lambda>x. IPv4_String (Neigh_IP x)) (fdb_heap 1)
   \<and> map_of (fdb_heap 0) ''1.1.1.1'' = Some (fdb_to 1 [0, 0, 0, 0, 0, 0])
   \<and> map_of (fdb_heap 1) ''1.1.1.1'' = Some (fdb_to 1 [0xaa, 0xbb, 0xcc, 0xdd, 0xee, 0xff])
   \<and> map fst (issued quiet (snd (snd (ApplyFDBs 0 1 fdb_heap quiet))))
       = [ReqNeighAppend (fdb_to 2 [0, 0, 0, 0, 0, 0]), ReqNeighDel (fdb_to 3 [0, 0, 0, 0, 0, 0])]
   \<and> ReqNeighAppend (fdb_to 1 [0xaa, 0xbb, 0xcc, 0xdd, 0xee, 0xff])
       \<notin> fst ` set (issued quiet (snd (snd (ApplyFDBs 0 1 fdb_heap quiet))))
   \<and> ReqNeighDel (fdb_to 1 [0, 0, 0, 0, 0, 0])
       \<notin> fst ` set (issued quiet (snd (snd (ApplyFDBs 0 1 fdb_heap quiet))))"
proof -
  let ?f = "ApplyFDBs 0 1 fdb_heap quiet"
  have m: "distinct (map fst (fdb_heap 0))" "distinct (map fst (fdb_heap 1))"
    by (simp_all add: fdb_heap_def)
  have kc: "keyed_by (\<lambda>x. IPv4_String (Neigh_IP x)) (fdb_heap 0)"
    and kd: "keyed_by (\<lambda>x. IPv4_String (Neigh_IP x)) (fdb_heap 1)"
    by (simp_all add: keyed_by_def fdb_heap_def fdb_to_def IPv4_String_def)
  have f: "?f = (fst ?f, fst (snd ?f), snd (snd ?f))"
    by simp
  have c: "map_of (fdb_heap 0) ''1.1.1.1'' = Some (fdb_to 1 [0, 0, 0, 0, 0, 0])"
    and d: "map_of (fdb_heap 1) ''1.1.1.1'' = Some (fdb_to 1 [0xaa, 0xbb, 0xcc, 0xdd, 0xee, 0xff])"
    by (simp_all add: fdb_heap_def)
  have ev: "map fst (issued quiet (snd (snd ?f)))
      = [ReqNeighAppend (fdb_to 2 [0, 0, 0, 0, 0, 0]), ReqNeighDel (fdb_to 3 [0, 0, 0, 0, 0, 0])]"
    by (simp add: fdb_defs run_defs ex_defs)
  from ApplyFDBs_never_replaces [OF m kc kd f c d] m kc kd c d ev show ?thesis
    by blast
qed

section \<open>Routes without a destination\<close>

text \<open>
  C2 at a default route. Current and desired both hold the key \<open><nil>-100\<close> of a route with
  a nil \<open>Dst\<close>; the two routes differ in their gateway. \<open>ApplyRoutes\<close> removes the key from
  current and then panics in \<open>routeEqual\<close>: it sends no request and does not return.
\<close>

theorem ApplyRoutes_nil_Dst_panics:
  "RouteKey IPv4Net_String (default_via [1, 1, 1, 1]) = ''<nil>-100''
   \<and> RouteKey IPv4Net_String (default_via [2, 2, 2, 2]) = ''<nil>-100''
   \<and> ApplyRoutes 0 1 default_heap quiet
       = Inl (NilPointerDereference, \<lparr>heap = default_heap(0 := []), errList = [], nl = quiet\<rparr>)"
  by (simp add: routes_defs run_defs ex_defs default_heap_def default_via_def RouteKey_def fmt_d_def)

lemma range_desired_no_panic:
  assumes "current \<noteq> desired" and "distinct ks"
    and "range_keys_p desired (gen_desired addq cmp current) ks s = Inr s'"
    and "k \<in> set ks"
    and "map_of (heap s current) k = Some ro" and "map_of (heap s desired) k = Some v"
  shows "\<exists>r. cmp ro v = Inr r"
  using assms(2-)
proof (induction ks arbitrary: s)
  case Nil
  then show ?case by simp
next
  case (Cons k' ks)
  have kn: "k' \<notin> set ks" and dk: "distinct ks" using Cons.prems(1) by auto
  show ?case
  proof (cases "k' = k")
    case True
    with Cons.prems(2,4,5) show ?thesis
      by (auto simp: gen_desired_def Let_def split: sum.splits)
  next
    case False
    with Cons.prems(3) have ks: "k \<in> set ks" by simp
    show ?thesis
    proof (cases "map_of (heap s desired) k'")
      case None
      with Cons.prems(2) have "range_keys_p desired (gen_desired addq cmp current) ks s = Inr s'"
        by simp
      from Cons.IH [OF dk this ks Cons.prems(4,5)] show ?thesis .
    next
      case (Some v')
      with Cons.prems(2) obtain s1 where b: "gen_desired addq cmp current k' v' s = Inr s1"
        and r: "range_keys_p desired (gen_desired addq cmp current) ks s1 = Inr s'"
        by (auto split: sum.splits)
      note fr = gen_desired_frame [OF assms(1) b]
      from fr(2) False Cons.prems(4) have c: "map_of (heap s1 current) k = Some ro"
        by (simp split: if_splits)
      from fr(1) Cons.prems(5) have d: "map_of (heap s1 desired) k = Some v" by simp
      from Cons.IH [OF dk r ks c d] show ?thesis .
    qed
  qed
qed

lemma ApplyRoutes_no_panic:
  assumes "two_maps h current desired"
    and "ApplyRoutes current desired h n = Inr r"
    and "map_of (h current) k = Some ro" and "map_of (h desired) k = Some v"
  shows "\<exists>roDst vDst. Route_Dst ro = Some roDst \<and> Route_Dst v = Some vDst"
proof -
  let ?s0 = "\<lparr>heap = h, errList = [], nl = n\<rparr>"
  from assms(2) obtain s1 where
    l1: "range_keys_p desired (gen_desired ReqRouteAdd route_cmp current) (map fst (h desired)) ?s0 = Inr s1"
    by (auto simp: ApplyRoutes_def Let_def ApplyRoutes_desired_gen range_map_p_def split: sum.splits)
  from assms(4) have "k \<in> set (map fst (h desired))"
    by (auto dest: map_of_SomeD intro: rev_image_eqI)
  from range_desired_no_panic [OF two_mapsD(1) [OF assms(1)] two_mapsD(3) [OF assms(1)] l1 this]
    assms(3,4)
  have "\<exists>r. route_cmp ro v = Inr r" by simp
  then show ?thesis
    by (auto simp: route_cmp_def routeEqual_def split: option.splits)
qed

lemma concat_single_key:
  assumes "distinct (map fst D)" and "map_of D k = Some v"
    and "\<And>k' v'. (k', v') \<in> set D \<Longrightarrow> k' \<noteq> k \<Longrightarrow> f (k', v') = []"
  shows "concat (map f D) = f (k, v)"
  using assms
proof (induction D)
  case Nil
  then show ?case by simp
next
  case (Cons kv D)
  obtain k' v' where kv: "kv = (k', v')" by (cases kv)
  show ?case
  proof (cases "k' = k")
    case True
    with Cons.prems(1,2) kv have v: "v' = v" and notin: "k \<notin> fst ` set D" by auto
    have "concat (map f D) = []"
      using Cons.prems(3) notin by (force simp: image_iff)
    with kv True v show ?thesis by simp
  next
    case False
    with Cons.prems(3) [of k' v'] kv have "f kv = []" by simp
    moreover have "concat (map f D) = f (k, v)"
      using Cons.prems False kv by (intro Cons.IH) auto
    ultimately show ?thesis by simp
  qed
qed

lemma filter_concat_map: "filter P (concat (map f xs)) = concat (map (\<lambda>x. filter P (f x)) xs)"
  by (induction xs) auto

text \<open>
  The replace decision on routes that have a destination. For two different maps with distinct keys, each
  route stored under its own \<open>RouteKey\<close>, and a key that both maps hold: whenever
  \<open>ApplyRoutes\<close> returns, both routes have a destination, and the requests it sent for that
  key are the single replace of the desired route when the two routes differ in destination
  IP, gateway, destination mask or link index, and none when they agree on all four. The
  source address and the table id are not compared.
\<close>

lemma ApplyRoutes_replace_iff_unequal:
  assumes "two_maps h current desired"
    and "keyed_by (RouteKey net_str) (h current)"
    and "keyed_by (RouteKey net_str) (h desired)"
    and "ApplyRoutes current desired h n = Inr (e, h', n')"
    and "map_of (h current) k = Some ro" and "map_of (h desired) k = Some v"
  shows "\<exists>roDst vDst. Route_Dst ro = Some roDst \<and> Route_Dst v = Some vDst
     \<and> filter (route_request_for net_str k) (map fst (issued n n'))
         = (if IP_Equal (IPNet_IP roDst) (IPNet_IP vDst) \<and> IP_Equal (Route_Gw ro) (Route_Gw v)
               \<and> IPNet_Mask roDst = IPNet_Mask vDst
               \<and> Route_LinkIndex ro = Route_LinkIndex v
            then [] else [ReqRouteReplace v])"
proof -
  from ApplyRoutes_no_panic [OF assms(1,4,5,6)] obtain roDst vDst
    where dst: "Route_Dst ro = Some roDst" "Route_Dst v = Some vDst" by blast
  let ?C = "h current" and ?D = "h desired"
  let ?F = "filter (route_request_for net_str k)"
  from ApplyRoutes_plan(3) [OF two_mapsD [OF assms(1)] assms(4)]
  have n': "n' = send_all (plan ReqRouteAdd route_cmp ReqRouteDel ?C ?D) n" .
  have kd: "k \<in> fst ` set ?D"
    using assms(6) by (auto dest: map_of_SomeD intro: rev_image_eqI)
  have kv: "RouteKey net_str v = k"
    using keyed_byD [OF assms(3)] assms(6) by (auto dest: map_of_SomeD)
  have dels: "?F (map (\<lambda>(k, v). ReqRouteDel v) (unwanted ?C ?D)) = []"
    using keyed_byD [OF assms(2)] kd
    by (auto simp: filter_empty_conv unwanted_def)
  have others: "?F (matched_reqs ReqRouteAdd route_cmp ?C k' v') = []"
    if "(k', v') \<in> set ?D" "k' \<noteq> k" for k' v'
    using keyed_byD [OF assms(3) that(1)] that(2)
    by (auto simp: matched_reqs_def route_cmp_def filter_empty_conv split: option.splits sum.splits)
  have "?F (desired_reqs ReqRouteAdd route_cmp ?C ?D)
      = ?F (matched_reqs ReqRouteAdd route_cmp ?C k v)"
    unfolding desired_reqs_def filter_concat_map
    using concat_single_key [OF two_mapsD(3) [OF assms(1)] assms(6),
        where f = "\<lambda>kv. ?F (case kv of (k, v) \<Rightarrow> matched_reqs ReqRouteAdd route_cmp ?C k v)"]
      others
    by (simp add: case_prod_beta)
  also have "\<dots> = (if IP_Equal (IPNet_IP roDst) (IPNet_IP vDst) \<and> IP_Equal (Route_Gw ro) (Route_Gw v)
               \<and> IPNet_Mask roDst = IPNet_Mask vDst
               \<and> Route_LinkIndex ro = Route_LinkIndex v
            then [] else [ReqRouteReplace v])"
    using assms(5) dst kv
    by (simp add: matched_reqs_def route_cmp_def routeEqual_def bytes_Equal_def)
  finally have "?F (map fst (issued n n'))
      = (if IP_Equal (IPNet_IP roDst) (IPNet_IP vDst) \<and> IP_Equal (Route_Gw ro) (Route_Gw v)
               \<and> IPNet_Mask roDst = IPNet_Mask vDst
               \<and> Route_LinkIndex ro = Route_LinkIndex v
            then [] else [ReqRouteReplace v])"
    unfolding n' by (simp add: plan_def dels)
  with dst show ?thesis by blast
qed

section \<open>The text of a hardware address\<close>

lemma loop_Suc:
  "HardwareAddr_String_loop (Suc i) bs buf = buf @ concat (map (\<lambda>b. CHR '':'' # hex2 b) bs)"
  by (induction bs arbitrary: i buf) (simp_all add: hex2_def)

lemma HardwareAddr_String_Cons:
  "HardwareAddr_String (b # bs) = hex2 b @ concat (map (\<lambda>b. CHR '':'' # hex2 b) bs)"
  by (simp add: HardwareAddr_String_def loop_Suc hex2_def)

lemma length_HardwareAddr_String:
  "length (HardwareAddr_String a) = 3 * length a - 1"
proof (cases a)
  case Nil
  then show ?thesis by (simp add: HardwareAddr_String_def)
next
  case (Cons b bs)
  have "length (concat (map (\<lambda>b. CHR '':'' # hex2 b) bs)) = 3 * length bs"
    by (induction bs) (simp_all add: hex2_def)
  with Cons show ?thesis by (simp add: HardwareAddr_String_Cons hex2_def)
qed

lemma unat_hi: "unat (drop_bit 4 (b :: byte)) = unat b div 16"
  by (simp add: unat_drop_bit_eq drop_bit_eq_div unat_div_distrib)

lemma unat_lo: "unat ((b :: byte) AND 0xF) = unat b mod 16"
proof -
  have "b AND 0xF = take_bit 4 b"
    by (simp add: take_bit_eq_mask mask_eq_exp_minus_1)
  then show ?thesis
    by (simp add: unsigned_take_bit_eq take_bit_eq_mod unat_mod_distrib)
qed

lemma unat_byte: "unat (b :: byte) < 256"
  using unsigned_less [of b] by simp

lemma hexDigit_0: "i < 16 \<Longrightarrow> hexDigit ! i = CHR ''0'' \<longleftrightarrow> i = 0"
proof -
  have d: "distinct hexDigit" and l: "length hexDigit = 16"
    by (simp_all add: hexDigit_def)
  have z: "hexDigit ! 0 = CHR ''0''" by (simp add: hexDigit_def)
  assume "i < 16"
  with nth_eq_iff_index_eq [OF d, of i 0] l z show ?thesis by simp
qed

lemma hex2_zero: "hex2 b = ''00'' \<longleftrightarrow> b = 0"
proof
  assume "hex2 b = ''00''"
  then have h: "hexDigit ! (unat b div 16) = CHR ''0''" and l: "hexDigit ! (unat b mod 16) = CHR ''0''"
    by (simp_all add: hex2_def unat_hi unat_lo)
  have "unat b div 16 < 16" using unat_byte [of b] by simp
  with h have "unat b div 16 = 0" by (simp add: hexDigit_0)
  moreover from l have "unat b mod 16 = 0" by (simp add: hexDigit_0)
  ultimately have "unat b = 0" by (metis div_mult_mod_eq mult_zero_left add.right_neutral)
  then show "b = 0" by (simp add: unat_eq_0)
next
  assume "b = 0"
  then show "hex2 b = ''00''" by (simp add: hex2_def hexDigit_def)
qed

lemma AllZeroMAC_String: "HardwareAddr_String AllZeroMAC = ''00:00:00:00:00:00''"
  by (simp add: AllZeroMAC_def HardwareAddr_String_Cons hex2_zero [THEN iffD2])

lemma length_6: "length (a :: 'a list) = 6 \<Longrightarrow> \<exists>a0 a1 a2 a3 a4 a5. a = [a0, a1, a2, a3, a4, a5]"
  by (auto simp: length_Suc_conv eval_nat_numeral)

lemma hex2_length [simp]: "length (hex2 b) = 2"
  by (simp add: hex2_def)

lemma hex2_split: "\<exists>c d. hex2 b = [c, d]"
  by (simp add: hex2_def)

lemma HardwareAddr_String_zero:
  "HardwareAddr_String a = HardwareAddr_String AllZeroMAC \<longleftrightarrow> a = AllZeroMAC"
proof
  assume eq: "HardwareAddr_String a = HardwareAddr_String AllZeroMAC"
  then have "length (HardwareAddr_String a) = 17"
    by (simp add: AllZeroMAC_String)
  then have "length a = 6"
    by (simp add: length_HardwareAddr_String)
  then obtain a0 a1 a2 a3 a4 a5 where a: "a = [a0, a1, a2, a3, a4, a5]"
    using length_6 by blast
  obtain c0 d0 where h0: "hex2 a0 = [c0, d0]" using hex2_split by blast
  obtain c1 d1 where h1: "hex2 a1 = [c1, d1]" using hex2_split by blast
  obtain c2 d2 where h2: "hex2 a2 = [c2, d2]" using hex2_split by blast
  obtain c3 d3 where h3: "hex2 a3 = [c3, d3]" using hex2_split by blast
  obtain c4 d4 where h4: "hex2 a4 = [c4, d4]" using hex2_split by blast
  obtain c5 d5 where h5: "hex2 a5 = [c5, d5]" using hex2_split by blast
  from eq have "hex2 a0 = ''00'' \<and> hex2 a1 = ''00'' \<and> hex2 a2 = ''00''
      \<and> hex2 a3 = ''00'' \<and> hex2 a4 = ''00'' \<and> hex2 a5 = ''00''"
    unfolding a AllZeroMAC_String HardwareAddr_String_Cons
    by (simp add: h0 h1 h2 h3 h4 h5)
  then show "a = AllZeroMAC"
    by (simp add: a hex2_zero AllZeroMAC_def)
next
  assume "a = AllZeroMAC"
  then show "HardwareAddr_String a = HardwareAddr_String AllZeroMAC" by simp
qed

section \<open>Indexing a listing by key\<close>

lemma index_fold:
  assumes "distinct (map fst m0)"
  shows "distinct (map fst (foldl (\<lambda>m v. if P v then AList.update (key v) v m else m) m0 xs))
     \<and> (\<forall>k. map_of (foldl (\<lambda>m v. if P v then AList.update (key v) v m else m) m0 xs) k
            = (case List.find (\<lambda>x. P x \<and> key x = k) (rev xs) of
                 Some x \<Rightarrow> Some x | None \<Rightarrow> map_of m0 k))"
proof (induction xs rule: rev_induct)
  case Nil
  from assms show ?case by simp
next
  case (snoc x xs)
  then show ?case
    by (auto simp: distinct_update update_conv')
qed

lemma find_SomeD: "List.find P xs = Some x \<Longrightarrow> x \<in> set xs \<and> P x"
  by (auto simp: find_Some_iff)

lemma find_exists: "x \<in> set xs \<Longrightarrow> P x \<Longrightarrow> \<exists>y. List.find P xs = Some y"
  by (cases "List.find P xs") (auto simp: find_None_iff)

section \<open>Listing the FDB entries\<close>

text \<open>
  C6. When the transport returns the bridge-family neighbour entries \<open>neighs\<close> of a link,
  \<open>ListFDBsOnNode\<close> returns a map with distinct keys that holds, under each IP text, the
  last entry of \<open>neighs\<close> with that IP text whose hardware address is the six zero bytes.
  So every entry of the map is an entry of \<open>neighs\<close> with the all-zero address, stored under
  the text of its own IP; the IP text of every such entry of \<open>neighs\<close> is a key of the map;
  an entry with any other hardware address is never in the map; and when no two all-zero
  entries share an IP text, the entries of the map are exactly the all-zero entries.
\<close>

theorem ListFDBsOnNode_zero_mac_only:
  assumes "NeighList n linkIndex AF_BRIDGE = Inr neighs"
  shows "\<exists>m. ListFDBsOnNode ip_str linkIndex n = Inr m
     \<and> distinct (map fst m)
     \<and> (\<forall>k. map_of m k
            = List.find (\<lambda>x. Neigh_HardwareAddr x = AllZeroMAC \<and> ip_str (Neigh_IP x) = k) (rev neighs))
     \<and> (\<forall>k x. (k, x) \<in> set m
            \<longrightarrow> x \<in> set neighs \<and> Neigh_HardwareAddr x = AllZeroMAC \<and> k = ip_str (Neigh_IP x))
     \<and> (\<forall>x \<in> set neighs. Neigh_HardwareAddr x = AllZeroMAC \<longrightarrow> ip_str (Neigh_IP x) \<in> fst ` set m)
     \<and> (\<forall>x \<in> set neighs. Neigh_HardwareAddr x \<noteq> AllZeroMAC \<longrightarrow> x \<notin> snd ` set m)
     \<and> (distinct (map (\<lambda>x. ip_str (Neigh_IP x))
                      (filter (\<lambda>x. Neigh_HardwareAddr x = AllZeroMAC) neighs))
          \<longrightarrow> snd ` set m = {x \<in> set neighs. Neigh_HardwareAddr x = AllZeroMAC})"
proof -
  let ?P = "\<lambda>x. Neigh_HardwareAddr x = AllZeroMAC"
  let ?key = "\<lambda>x. ip_str (Neigh_IP x)"
  let ?m = "foldl (\<lambda>m v. if ?P v then AList.update (?key v) v m else m) [] neighs"
  have r: "ListFDBsOnNode ip_str linkIndex n = Inr ?m"
    using assms by (simp add: ListFDBsOnNode_def HardwareAddr_String_zero)
  from index_fold [of "[]" ?P ?key neighs]
  have d: "distinct (map fst ?m)"
    and f: "map_of ?m k = List.find (\<lambda>x. ?P x \<and> ?key x = k) (rev neighs)" for k
    by (simp_all split: option.splits)
  have sound: "x \<in> set neighs \<and> ?P x \<and> k = ?key x" if "(k, x) \<in> set ?m" for k x
  proof -
    from that d have "map_of ?m k = Some x" by simp
    with f [of k] have "List.find (\<lambda>x. ?P x \<and> ?key x = k) (rev neighs) = Some x" by simp
    from find_SomeD [OF this] show ?thesis by auto
  qed
  have complete: "?key x \<in> fst ` set ?m" if "x \<in> set neighs" "?P x" for x
  proof -
    from that have "\<exists>y. List.find (\<lambda>y. ?P y \<and> ?key y = ?key x) (rev neighs) = Some y"
      by (intro find_exists [where x = x]) auto
    with f [of "?key x"] obtain y where "map_of ?m (?key x) = Some y" by auto
    then show ?thesis by (auto dest: map_of_SomeD intro: rev_image_eqI)
  qed
  have never: "x \<notin> snd ` set ?m" if "\<not> ?P x" for x
    using sound that by force
  have exact: "snd ` set ?m = {x \<in> set neighs. ?P x}"
    if dist: "distinct (map ?key (filter ?P neighs))"
  proof (intro equalityI subsetI)
    fix x assume "x \<in> snd ` set ?m"
    with sound show "x \<in> {x \<in> set neighs. ?P x}" by force
  next
    fix x assume "x \<in> {x \<in> set neighs. ?P x}"
    then have x: "x \<in> set neighs" "?P x" by auto
    then have "\<exists>y. List.find (\<lambda>y. ?P y \<and> ?key y = ?key x) (rev neighs) = Some y"
      by (intro find_exists [where x = x]) auto
    then obtain y where y: "List.find (\<lambda>y. ?P y \<and> ?key y = ?key x) (rev neighs) = Some y" ..
    from find_SomeD [OF y] have "y \<in> set (filter ?P neighs)" "?key y = ?key x" by auto
    moreover from x have "x \<in> set (filter ?P neighs)" by simp
    ultimately have "y = x"
      using dist by (auto simp: distinct_map dest: inj_onD)
    with y f [of "?key x"] have "map_of ?m (?key x) = Some x" by simp
    then show "x \<in> snd ` set ?m" by (auto dest: map_of_SomeD intro: rev_image_eqI)
  qed
  from r d f sound complete never exact show ?thesis
    by (intro exI [of _ ?m]) blast
qed

theorem ListFDBsOnNode_zero_mac_only_witness:
  "NeighList fdb_listing 5 AF_BRIDGE
     = Inr [fdb_to 1 [0, 0, 0, 0, 0, 0], fdb_to 2 [0xaa, 0xbb, 0xcc, 0xdd, 0xee, 0xff],
            fdb_to 3 [0, 0, 0, 0, 0, 0]]
   \<and> ListFDBsOnNode IPv4_String 5 fdb_listing
     = Inr [(''1.1.1.1'', fdb_to 1 [0, 0, 0, 0, 0, 0]), (''3.3.3.3'', fdb_to 3 [0, 0, 0, 0, 0, 0])]
   \<and> (\<exists>m. ListFDBsOnNode IPv4_String 5 fdb_listing = Inr m
          \<and> fdb_to 2 [0xaa, 0xbb, 0xcc, 0xdd, 0xee, 0xff] \<notin> snd ` set m)"
proof -
  have l: "NeighList fdb_listing 5 AF_BRIDGE
     = Inr [fdb_to 1 [0, 0, 0, 0, 0, 0], fdb_to 2 [0xaa, 0xbb, 0xcc, 0xdd, 0xee, 0xff],
            fdb_to 3 [0, 0, 0, 0, 0, 0]]"
    by (simp add: fdb_listing_def quiet_def)
  have ev: "ListFDBsOnNode IPv4_String 5 fdb_listing
     = Inr [(''1.1.1.1'', fdb_to 1 [0, 0, 0, 0, 0, 0]), (''3.3.3.3'', fdb_to 3 [0, 0, 0, 0, 0, 0])]"
    unfolding ListFDBsOnNode_def l HardwareAddr_String_zero
    by (simp add: AllZeroMAC_def fdb_to_def IPv4_String_def)
  have "Neigh_HardwareAddr (fdb_to 2 [0xaa, 0xbb, 0xcc, 0xdd, 0xee, 0xff]) \<noteq> AllZeroMAC"
    by (simp add: fdb_to_def AllZeroMAC_def)
  with ListFDBsOnNode_zero_mac_only [OF l, of IPv4_String]
  have "\<exists>m. ListFDBsOnNode IPv4_String 5 fdb_listing = Inr m
          \<and> fdb_to 2 [0xaa, 0xbb, 0xcc, 0xdd, 0xee, 0xff] \<notin> snd ` set m"
    by (auto simp: l)
  with l ev show ?thesis by blast
qed

section \<open>Listing and teardown of routes\<close>

lemma CleanRoutes_step_request:
  "CleanRoutes_step (errs, n) kv =
     (errs @ map (Errorf ''error deleting routes: '') (failures (calls_of [ReqRouteDel (snd kv)] n)),
      send_all [ReqRouteDel (snd kv)] n)"
  by (simp add: CleanRoutes_step_def RouteDel_def netlink_request_def Let_def Append_def
      split: option.splits)

lemma CleanRoutes_fold:
  "foldl CleanRoutes_step (errs, n) routes =
     (errs @ map (Errorf ''error deleting routes: '')
               (failures (calls_of (map (\<lambda>kv. ReqRouteDel (snd kv)) routes) n)),
      send_all (map (\<lambda>kv. ReqRouteDel (snd kv)) routes) n)"
proof (induction routes arbitrary: errs n)
  case Nil
  then show ?case by simp
next
  case (Cons kv routes)
  have "foldl CleanRoutes_step (errs, n) (kv # routes)
      = foldl CleanRoutes_step (CleanRoutes_step (errs, n) kv) routes"
    by simp
  also have "\<dots> = (errs @ map (Errorf ''error deleting routes: '')
               (failures (calls_of (map (\<lambda>kv. ReqRouteDel (snd kv)) (kv # routes)) n)),
      send_all (map (\<lambda>kv. ReqRouteDel (snd kv)) (kv # routes)) n)"
    unfolding CleanRoutes_step_request Cons.IH
    by (simp split: option.splits)
  finally show ?case .
qed

lemma ListRoutesOnNode_index:
  assumes "RouteListFiltered n FAMILY_V4 t = Inr routes"
  shows "\<exists>ro. ListRoutesOnNode net_str t n = Inr ro \<and> distinct (map fst ro)
     \<and> (\<forall>k. map_of ro k = List.find (\<lambda>x. RouteKey net_str x = k) (rev routes))"
  using assms index_fold [of "[]" "\<lambda>_. True" "RouteKey net_str" routes]
  by (simp add: ListRoutesOnNode_def split: option.splits)

text \<open>
  C9. \<open>CleanRoutesOnNode\<close> lists the routes of the table with \<open>ListRoutesOnNode\<close>. When the
  listing succeeds it sends one delete for each route of the listed map and nothing else,
  and returns nil when all deletes succeed and otherwise the list of their errors, each
  prefixed \<open>error deleting routes: \<close>. When the listing fails it sends no request and
  returns the one-element list holding the listing error prefixed \<open>error listing routes: \<close>.
  The listing fails exactly when the transport's list call fails; otherwise the listed map
  holds routes the transport returned, all of them when no two have the same key.
\<close>

theorem CleanRoutesOnNode_deletes_listed:
  "(ListRoutesOnNode net_str t n = Inr ro \<longrightarrow>
      (\<exists>e n'. CleanRoutesOnNode net_str t n = (e, n')
         \<and> map fst (issued n n') = map (\<lambda>(k, v). ReqRouteDel v) ro
         \<and> e = AsError (map (Errorf ''error deleting routes: '') (failures (issued n n')))))
   \<and> (ListRoutesOnNode net_str t n = Inl err \<longrightarrow>
        CleanRoutesOnNode net_str t n = (Some [Errorf ''error listing routes: '' err], n)
        \<and> issued n n = [])
   \<and> (RouteListFiltered n FAMILY_V4 t = Inl err \<longrightarrow> ListRoutesOnNode net_str t n = Inl err)
   \<and> (RouteListFiltered n FAMILY_V4 t = Inr routes \<longrightarrow>
        (\<exists>ro. ListRoutesOnNode net_str t n = Inr ro \<and> snd ` set ro \<subseteq> set routes
           \<and> (distinct (map (RouteKey net_str) routes) \<longrightarrow> snd ` set ro = set routes)))"
proof -
  have 1: "\<exists>e n'. CleanRoutesOnNode net_str t n = (e, n')
         \<and> map fst (issued n n') = map (\<lambda>(k, v). ReqRouteDel v) ro
         \<and> e = AsError (map (Errorf ''error deleting routes: '') (failures (issued n n')))"
    if l: "ListRoutesOnNode net_str t n = Inr ro"
    by (simp add: CleanRoutesOnNode_def l CleanRoutes_fold case_prod_beta)
  have 2: "CleanRoutesOnNode net_str t n = (Some [Errorf ''error listing routes: '' err], n)
        \<and> issued n n = []"
    if l: "ListRoutesOnNode net_str t n = Inl err"
    by (simp add: CleanRoutesOnNode_def l Append_def AsError_def)
  have 3: "ListRoutesOnNode net_str t n = Inl err"
    if "RouteListFiltered n FAMILY_V4 t = Inl err"
    using that by (simp add: ListRoutesOnNode_def)
  have 4: "\<exists>ro. ListRoutesOnNode net_str t n = Inr ro \<and> snd ` set ro \<subseteq> set routes
           \<and> (distinct (map (RouteKey net_str) routes) \<longrightarrow> snd ` set ro = set routes)"
    if l: "RouteListFiltered n FAMILY_V4 t = Inr routes"
  proof -
  from ListRoutesOnNode_index [OF l, of net_str] obtain ro where
    r: "ListRoutesOnNode net_str t n = Inr ro" and d: "distinct (map fst ro)"
    and f: "\<And>k. map_of ro k = List.find (\<lambda>x. RouteKey net_str x = k) (rev routes)"
    by blast
  have sub: "snd ` set ro \<subseteq> set routes"
  proof
    fix x assume "x \<in> snd ` set ro"
    then obtain k where "(k, x) \<in> set ro" by auto
    with d have "map_of ro k = Some x" by simp
    with f [of k] have "List.find (\<lambda>x. RouteKey net_str x = k) (rev routes) = Some x" by simp
    from find_SomeD [OF this] show "x \<in> set routes" by simp
  qed
  have all: "snd ` set ro = set routes" if dist: "distinct (map (RouteKey net_str) routes)"
  proof (intro equalityI sub subsetI)
    fix x assume x: "x \<in> set routes"
    then have "\<exists>y. List.find (\<lambda>y. RouteKey net_str y = RouteKey net_str x) (rev routes) = Some y"
      by (intro find_exists [where x = x]) auto
    then obtain y where y: "List.find (\<lambda>y. RouteKey net_str y = RouteKey net_str x) (rev routes) = Some y" ..
    from find_SomeD [OF y] have "y \<in> set routes" "RouteKey net_str y = RouteKey net_str x" by auto
    with x dist have "y = x" by (auto simp: distinct_map dest: inj_onD)
    with y f [of "RouteKey net_str x"] have "map_of ro (RouteKey net_str x) = Some x" by simp
    then show "x \<in> snd ` set ro" by (auto dest: map_of_SomeD intro: rev_image_eqI)
  qed
  from r sub all show ?thesis
    by blast
  qed
  from 1 2 3 4 show ?thesis by blast
qed

theorem CleanRoutesOnNode_deletes_listed_witness:
  "ListRoutesOnNode IPv4Net_String 100 routes_listing
     = Inr [(''10.0.0.0/24-100'', route_to 0 [1, 1, 1, 1] []),
            (''10.0.2.0/24-100'', route_to 2 [1, 1, 1, 1] [])]
   \<and> fst (CleanRoutesOnNode IPv4Net_String 100 routes_listing)
       = Some [Err ''error deleting routes: file exists'']
   \<and> map fst (issued routes_listing (snd (CleanRoutesOnNode IPv4Net_String 100 routes_listing)))
       = [ReqRouteDel (route_to 0 [1, 1, 1, 1] []), ReqRouteDel (route_to 2 [1, 1, 1, 1] [])]
   \<and> ListRoutesOnNode IPv4Net_String 100 broken_listing = Inl (Err ''no buffer space available'')
   \<and> CleanRoutesOnNode IPv4Net_String 100 broken_listing
       = (Some [Err ''error listing routes: no buffer space available''], broken_listing)"
proof -
  have l: "ListRoutesOnNode IPv4Net_String 100 routes_listing
     = Inr [(''10.0.0.0/24-100'', route_to 0 [1, 1, 1, 1] []),
            (''10.0.2.0/24-100'', route_to 2 [1, 1, 1, 1] [])]"
    by (simp add: ListRoutesOnNode_def routes_listing_def first_fails_def quiet_def RouteKey_def
        IPv4Net_String_def IPv4_String_def fmt_d_def route_to_def)
  have b: "ListRoutesOnNode IPv4Net_String 100 broken_listing = Inl (Err ''no buffer space available'')"
    by (simp add: ListRoutesOnNode_def broken_listing_def quiet_def)
  note t = CleanRoutesOnNode_deletes_listed [where net_str = IPv4Net_String and t = 100]
  from t [where n = routes_listing, THEN conjunct1, rule_format, OF l]
  obtain e n' where c: "CleanRoutesOnNode IPv4Net_String 100 routes_listing = (e, n')"
    and q: "map fst (issued routes_listing n')
       = [ReqRouteDel (route_to 0 [1, 1, 1, 1] []), ReqRouteDel (route_to 2 [1, 1, 1, 1] [])]"
    by auto
  have e: "fst (CleanRoutesOnNode IPv4Net_String 100 routes_listing)
       = Some [Err ''error deleting routes: file exists'']"
    unfolding CleanRoutesOnNode_def l
    by (simp add: CleanRoutes_step_def RouteDel_def netlink_request_def
        Let_def Append_def AsError_def Errorf_def routes_listing_def first_fails_def quiet_def)
  from t [where n = broken_listing, THEN conjunct2, THEN conjunct1, rule_format, OF b]
  have "CleanRoutesOnNode IPv4Net_String 100 broken_listing
       = (Some [Err ''error listing routes: no buffer space available''], broken_listing)"
    by (simp add: Errorf_def)
  with l b c q e show ?thesis by simp
qed

section \<open>The kernel tables after a successful call\<close>

lemma map_of_apply_change:
  "map_of (apply_change K c) =
     (case c of Store k v \<Rightarrow> (map_of K)(k \<mapsto> v) | Remove k \<Rightarrow> (map_of K)(k := None)
      | Unchanged \<Rightarrow> map_of K)"
  by (cases c) (simp_all add: update_conv' delete_conv')

lemma map_of_stores:
  "distinct (map fst es) \<Longrightarrow>
     map_of (foldl apply_change K (map (\<lambda>(k, v). Store k v) es)) = map_of K ++ map_of es"
proof (induction es arbitrary: K)
  case Nil
  then show ?case by simp
next
  case (Cons kv es)
  obtain k v where kv: "kv = (k, v)" by (cases kv)
  from Cons.prems kv have d: "distinct (map fst es)" and k: "k \<notin> fst ` set es" by auto
  from k have nk: "map_of es k = None" by (simp add: map_of_eq_None_iff)
  have "(map_of K)(k \<mapsto> v) ++ map_of es = map_of K ++ map_of ((k, v) # es)"
  proof (rule ext)
    fix a show "((map_of K)(k \<mapsto> v) ++ map_of es) a = (map_of K ++ map_of ((k, v) # es)) a"
      using nk by (cases "a = k") (simp_all add: map_add_def split: option.splits)
  qed
  moreover have "map_of (foldl apply_change K (map (\<lambda>(k, v). Store k v) (kv # es)))
      = map_of (AList.update k v K) ++ map_of es"
    unfolding kv list.map foldl_Cons case_prod_conv apply_change.simps
    by (rule Cons.IH [OF d])
  moreover have "map_of (AList.update k v K) = (map_of K)(k \<mapsto> v)"
    by (rule update_conv')
  ultimately show ?case unfolding kv by (simp only:)
qed

lemma map_of_removes:
  "map_of (foldl apply_change K (map Remove ks)) = (\<lambda>k. if k \<in> set ks then None else map_of K k)"
proof (induction ks arbitrary: K)
  case Nil
  then show ?case by simp
next
  case (Cons k ks)
  from Cons.IH [of "AList.delete k K"] show ?case
    by (auto simp: delete_conv' fun_eq_iff)
qed

lemma all_succeeded:
  assumes "failures cs = []"
  shows "cs = map (\<lambda>q. (q, None)) (map fst cs)"
proof -
  from assms have "\<forall>c \<in> set cs. snd c = None" by (simp add: failures_empty_iff)
  then show ?thesis by (induction cs) auto
qed

lemma matched_reqs_cases:
  "matched_reqs addq cmp C k v = [] \<or> (\<exists>q. matched_reqs addq cmp C k v = [q])"
  by (auto simp: matched_reqs_def split: option.splits sum.splits)

lemma desired_changes:
  assumes "\<And>k v q. (k, v) \<in> set D \<Longrightarrow> q \<in> set (matched_reqs addq cmp C k v)
             \<Longrightarrow> chg (q, None) = Store k v"
  shows "map chg (map (\<lambda>q. (q, None)) (desired_reqs addq cmp C D))
       = map (\<lambda>(k, v). Store k v) (written addq cmp C D)"
  using assms
proof (induction D)
  case Nil
  then show ?case by (simp add: desired_reqs_def written_def)
next
  case (Cons kv D)
  obtain k v where kv: "kv = (k, v)" by (cases kv)
  have ih: "map chg (map (\<lambda>q. (q, None)) (desired_reqs addq cmp C D))
       = map (\<lambda>(k, v). Store k v) (written addq cmp C D)"
    by (rule Cons.IH) (use Cons.prems in auto)
  from matched_reqs_cases [of addq cmp C k v] show ?case
  proof
    assume "matched_reqs addq cmp C k v = []"
    with ih kv show ?thesis by (simp add: desired_reqs_def written_def)
  next
    assume "\<exists>q. matched_reqs addq cmp C k v = [q]"
    then obtain q where q: "matched_reqs addq cmp C k v = [q]" ..
    with Cons.prems [of k v q] kv have "chg (q, None) = Store k v" by simp
    with ih kv q show ?thesis by (simp add: desired_reqs_def written_def)
  qed
qed

lemma unwanted_changes:
  assumes "\<And>k x. (k, x) \<in> set C \<Longrightarrow> chg (delq x, None) = Remove k"
  shows "map chg (map (\<lambda>q. (q, None)) (map (\<lambda>(k, v). delq v) (unwanted C D)))
       = map Remove (map fst (unwanted C D))"
proof -
  have "\<And>kx. kx \<in> set (unwanted C D) \<Longrightarrow> chg (delq (snd kx), None) = Remove (fst kx)"
    using assms by (auto simp: unwanted_def)
  then show ?thesis by (simp add: case_prod_beta)
qed

lemma map_of_written:
  "distinct (map fst D) \<Longrightarrow>
     map_of (written addq cmp C D) k =
       (case map_of D k of None \<Rightarrow> None
        | Some v \<Rightarrow> if matched_reqs addq cmp C k v = [] then None else Some v)"
  unfolding written_def
  by (induction D) (auto simp: map_of_eq_None_iff image_iff split: option.splits)

lemma table_after:
  assumes dd: "distinct (map fst D)"
    and A: "\<And>k v q. (k, v) \<in> set D \<Longrightarrow> q \<in> set (matched_reqs addq cmp C k v)
             \<Longrightarrow> chg (q, None) = Store k v"
    and B: "\<And>k x. (k, x) \<in> set C \<Longrightarrow> chg (delq x, None) = Remove k"
  shows "map_of (foldl apply_change C (map chg (map (\<lambda>q. (q, None)) (plan addq cmp delq C D)))) k
       = (case map_of D k of None \<Rightarrow> None
          | Some v \<Rightarrow> if matched_reqs addq cmp C k v = [] then map_of C k else Some v)"
proof -
  let ?W = "written addq cmp C D" and ?U = "unwanted C D"
  have dw: "distinct (map fst ?W)"
    unfolding written_def using dd by (rule distinct_map_filter)
  have s1: "map chg (map (\<lambda>q. (q, None)) (plan addq cmp delq C D))
      = map (\<lambda>(k, v). Store k v) ?W @ map Remove (map fst ?U)"
    unfolding plan_def map_append
    by (simp only: desired_changes [of D addq cmp C chg, OF A] unwanted_changes [of C chg delq D, OF B])
  have "map_of (foldl apply_change C (map chg (map (\<lambda>q. (q, None)) (plan addq cmp delq C D)))) k
      = (if k \<in> set (map fst ?U) then None else (map_of C ++ map_of ?W) k)"
    unfolding s1 foldl_append map_of_removes map_of_stores [OF dw] ..
  also have "\<dots> = (case map_of D k of None \<Rightarrow> None
          | Some v \<Rightarrow> if matched_reqs addq cmp C k v = [] then map_of C k else Some v)"
  proof (cases "map_of D k")
    case None
    then have nd: "k \<notin> fst ` set D" by (simp add: map_of_eq_None_iff)
    have w: "map_of ?W k = None" using None dd by (simp add: map_of_written)
    have "k \<in> set (map fst ?U) \<longleftrightarrow> k \<in> fst ` set C"
      using nd by (force simp: unwanted_def image_iff)
    then have u: "k \<in> set (map fst ?U) \<longleftrightarrow> map_of C k \<noteq> None"
      by (simp add: map_of_eq_None_iff)
    show ?thesis
      unfolding None u by (simp add: map_add_def w)
  next
    case (Some v)
    then have "k \<in> fst ` set D" by (auto dest: map_of_SomeD intro: rev_image_eqI)
    then have "k \<notin> set (map fst ?U)" by (fastforce simp: unwanted_def image_iff)
    then show ?thesis using Some dd
      by (simp add: map_add_def map_of_written)
  qed
  finally show ?thesis .
qed

lemma dom_map_of_conv: "fst ` set m = {k. map_of m k \<noteq> None}"
  by (auto simp: map_of_eq_None_iff)

section \<open>Completeness of the rule converge\<close>

text \<open>
  C1. Let current and desired have distinct keys, each rule stored under its own
  \<open>RuleKey\<close>, and let the kernel's rule table be what current lists. If
  \<open>ApplyRules\<close> returns nil, the key set of the kernel table after the calls it made equals
  the key set of desired: a rule of desired whose key current lacks was added (the add was
  sent and succeeded) and the table holds it, a key of both still holds the rule current
  lists, and a rule of current whose key desired lacks was deleted.
\<close>

theorem ApplyRules_completeness:
  assumes "distinct (map fst (h current))" and "distinct (map fst (h desired))"
    and "keyed_by (RuleKey net_str) (h current)" and "keyed_by (RuleKey net_str) (h desired)"
    and "ApplyRules current desired h n = (None, h', n')"
  shows "fst ` set (rules_after net_str (issued n n') (h current)) = fst ` set (h desired)
       \<and> (\<forall>k r. map_of (h desired) k = Some r \<and> map_of (h current) k = None
            \<longrightarrow> (ReqRuleAdd r, None) \<in> set (issued n n')
              \<and> map_of (rules_after net_str (issued n n') (h current)) k = Some r)
       \<and> (\<forall>k r. map_of (h desired) k = Some r \<and> map_of (h current) k \<noteq> None
            \<longrightarrow> map_of (rules_after net_str (issued n n') (h current)) k = map_of (h current) k)
       \<and> (\<forall>k r. map_of (h current) k = Some r \<and> map_of (h desired) k = None
            \<longrightarrow> (ReqRuleDel r, None) \<in> set (issued n n')
              \<and> map_of (rules_after net_str (issued n n') (h current)) k = None)"
proof (cases "current = desired")
  case True
  with assms(5) have "issued n n' = []" by (simp add: ApplyRules_alias)
  with True show ?thesis by (simp add: rules_after_def)
next
  case False
  let ?C = "h current" and ?D = "h desired"
  let ?P = "plan ReqRuleAdd no_cmp ReqRuleDel ?C ?D"
  from ApplyRules_plan [OF False assms(1,2), of n] assms(5)
  have e: "AsError (failures (calls_of ?P n)) = None" and n': "n' = send_all ?P n"
    by simp_all
  from e have "failures (calls_of ?P n) = []"
    by (simp add: AsError_def split: if_splits)
  from all_succeeded [OF this] have calls: "issued n n' = map (\<lambda>q. (q, None)) ?P"
    by (simp add: n')
  have A: "rule_change net_str (q, None) = Store k v"
    if "(k, v) \<in> set ?D" "q \<in> set (matched_reqs ReqRuleAdd no_cmp ?C k v)" for k v q
    using that keyed_byD [OF assms(4) that(1)] by (simp add: matched_reqs_no_cmp)
  have B: "rule_change net_str (ReqRuleDel x, None) = Remove k" if "(k, x) \<in> set ?C" for k x
    using keyed_byD [OF assms(3) that] by simp
  have tab: "map_of (rules_after net_str (issued n n') ?C) k
      = (case map_of ?D k of None \<Rightarrow> None
         | Some v \<Rightarrow> if map_of ?C k = None then Some v else map_of ?C k)" for k
    unfolding rules_after_def calls
    using table_after [of ?D ReqRuleAdd no_cmp ?C "rule_change net_str" ReqRuleDel k,
        OF assms(2) A B]
    by (auto simp: matched_reqs_def no_cmp_def split: option.splits)
  have keys: "fst ` set (rules_after net_str (issued n n') ?C) = fst ` set ?D"
    unfolding dom_map_of_conv tab by (auto split: option.splits)
  have sent_add: "(ReqRuleAdd r, None) \<in> set (issued n n')"
    if "map_of ?D k = Some r" "map_of ?C k = None" for k r
    unfolding calls using plan_add [OF that, of ReqRuleAdd no_cmp ReqRuleDel] by simp
  have sent_del: "(ReqRuleDel r, None) \<in> set (issued n n')"
    if "map_of ?C k = Some r" "map_of ?D k = None" for k r
    unfolding calls using plan_del [OF that, of ReqRuleDel ReqRuleAdd no_cmp] by simp
  from keys sent_add sent_del tab show ?thesis
    by (auto split: option.splits)
qed

theorem ApplyRules_completeness_witness:
  "distinct (map fst (rules_heap 0)) \<and> distinct (map fst (rules_heap 1))
   \<and> keyed_by (RuleKey IPv4Net_String) (rules_heap 0)
   \<and> keyed_by (RuleKey IPv4Net_String) (rules_heap 1)
   \<and> fst (ApplyRules 0 1 rules_heap quiet) = None
   \<and> fst ` set (rules_after IPv4Net_String
                    (issued quiet (snd (snd (ApplyRules 0 1 rules_heap quiet)))) (rules_heap 0))
       = {''10.2.0.0/16'', ''10.3.0.0/16'', ''10.4.0.0/16''}"
proof -
  let ?r = "ApplyRules 0 1 rules_heap quiet"
  have m: "distinct (map fst (rules_heap 0))" "distinct (map fst (rules_heap 1))"
    by (simp_all add: rules_heap_def)
  have kc: "keyed_by (RuleKey IPv4Net_String) (rules_heap 0)"
    and kd: "keyed_by (RuleKey IPv4Net_String) (rules_heap 1)"
    by (simp_all add: keyed_by_def rules_heap_def RuleKey_def IPv4Net_String_def IPv4_String_def
        rule_a_def rule_c_def rule_d_def rule_e_def net_10_1_def net_10_2_def net_10_3_def
        net_10_4_def)
  have e: "fst ?r = None"
    by (simp add: rules_defs run_defs ex_defs)
  then have r: "?r = (None, fst (snd ?r), snd (snd ?r))"
    by (metis prod.collapse)
  from ApplyRules_completeness [OF m kc kd r]
  have "fst ` set (rules_after IPv4Net_String (issued quiet (snd (snd ?r))) (rules_heap 0))
      = fst ` set (rules_heap 1)"
    by blast
  then have "fst ` set (rules_after IPv4Net_String (issued quiet (snd (snd ?r))) (rules_heap 0))
      = {''10.2.0.0/16'', ''10.3.0.0/16'', ''10.4.0.0/16''}"
    by (simp add: rules_heap_def)
  with m kc kd e show ?thesis by blast
qed

section \<open>Idempotence of the route converge\<close>

lemma route_matched_same: "matched_reqs ReqRouteAdd route_cmp [(k, v)] k v = []"
  by (simp add: matched_reqs_def route_cmp_def routeEqual_refl split: option.splits)

lemma distinct_apply_changes:
  "distinct (map fst K) \<Longrightarrow> distinct (map fst (foldl apply_change K cs))"
proof (induction cs arbitrary: K)
  case Nil
  then show ?case by simp
next
  case (Cons c cs)
  then show ?case
    by (cases c) (simp_all add: distinct_update distinct_delete)
qed

text \<open>
  C5. Let current and desired be two different maps with distinct keys, each route stored
  under its own \<open>RouteKey\<close>, let the kernel's route table be what current lists, and let a
  first \<open>ApplyRoutes\<close> return nil. Let \<open>C'\<close> be any map with distinct keys that lists the
  kernel table after the calls of the first run. Then a second \<open>ApplyRoutes\<close> on \<open>C'\<close> and
  the same desired map sends no request at all, whether it returns or not; and when every
  desired route has a destination it returns nil.
\<close>

theorem ApplyRoutes_idempotent:
  assumes "two_maps h current desired"
    and "keyed_by (RouteKey net_str) (h current)" and "keyed_by (RouteKey net_str) (h desired)"
    and "ApplyRoutes current desired h n = Inr (None, h1, n1)"
    and "distinct (map fst C')"
    and "map_of C' = map_of (routes_after net_str (issued n n1) (h current))"
    and "current2 \<noteq> desired2" and "h2 current2 = C'" and "h2 desired2 = h desired"
  shows "(case ApplyRoutes current2 desired2 h2 n2 of
            Inl (p, s) \<Rightarrow> issued n2 (nl s) = []
          | Inr (e, h3, n3) \<Rightarrow> issued n2 n3 = [] \<and> e = None)
       \<and> ((\<forall>(k, v) \<in> set (h desired). Route_Dst v \<noteq> None)
            \<longrightarrow> (\<exists>h3. ApplyRoutes current2 desired2 h2 n2 = Inr (None, h3, n2)))"
proof -
  let ?C = "h current" and ?D = "h desired"
  let ?P = "plan ReqRouteAdd route_cmp ReqRouteDel ?C ?D"
  note dd = two_mapsD(3) [OF assms(1)]
  from ApplyRoutes_plan [OF two_mapsD [OF assms(1)] assms(4)]
  have e: "AsError (failures (calls_of ?P n)) = None" and n1: "n1 = send_all ?P n"
    by simp_all
  from e have "failures (calls_of ?P n) = []"
    by (simp add: AsError_def split: if_splits)
  from all_succeeded [OF this] have calls: "issued n n1 = map (\<lambda>q. (q, None)) ?P"
    by (simp add: n1)
  have A: "route_change net_str (q, None) = Store k v"
    if "(k, v) \<in> set ?D" "q \<in> set (matched_reqs ReqRouteAdd route_cmp ?C k v)" for k v q
    using that(2) keyed_byD [OF assms(3) that(1)]
    by (auto simp: matched_reqs_def route_cmp_def split: option.splits sum.splits if_splits)
  have B: "route_change net_str (ReqRouteDel x, None) = Remove k" if "(k, x) \<in> set ?C" for k x
    using keyed_byD [OF assms(2) that] by simp
  have tab: "map_of C' k
      = (case map_of ?D k of None \<Rightarrow> None
         | Some v \<Rightarrow> if matched_reqs ReqRouteAdd route_cmp ?C k v = [] then map_of ?C k else Some v)"
    for k
    unfolding assms(6) routes_after_def calls
    by (rule table_after [of ?D ReqRouteAdd route_cmp ?C "route_change net_str" ReqRouteDel k,
          OF dd A B])
  have quiet_key: "matched_reqs ReqRouteAdd route_cmp C' k v = []" if kv: "(k, v) \<in> set ?D" for k v
  proof -
    from kv dd have d: "map_of ?D k = Some v" by simp
    show ?thesis
    proof (cases "matched_reqs ReqRouteAdd route_cmp ?C k v = []")
      case True
      then obtain ro where ro: "map_of ?C k = Some ro"
        by (auto simp: matched_reqs_def split: option.splits)
      with tab [of k] d True have "map_of C' k = Some ro" by simp
      with True ro show ?thesis by (simp add: matched_reqs_def)
    next
      case False
      with tab [of k] d have "map_of C' k = Some v" by simp
      then show ?thesis
        by (simp add: matched_reqs_def route_cmp_def routeEqual_refl split: option.splits)
    qed
  qed
  then have dr: "desired_reqs ReqRouteAdd route_cmp C' ?D = []"
    by (auto simp: desired_reqs_def)
  have "k \<in> fst ` set ?D" if "k \<in> fst ` set C'" for k
  proof -
    from that have "map_of C' k \<noteq> None" by (simp add: map_of_eq_None_iff)
    with tab [of k] have "map_of ?D k \<noteq> None" by (auto split: option.splits)
    then show ?thesis by (simp add: map_of_eq_None_iff)
  qed
  then have un: "unwanted C' ?D = []"
    by (force simp: unwanted_def filter_empty_conv)
  from dr un have p2: "plan ReqRouteAdd route_cmp ReqRouteDel (h2 current2) (h2 desired2) = []"
    by (simp add: plan_def assms(8,9))
  have m2: "two_maps h2 current2 desired2"
    using assms(5,7,8,9) dd by (simp add: two_maps_def)
  let ?s0 = "\<lparr>heap = h2, errList = [], nl = n2\<rparr>"
  have first: "(case ApplyRoutes current2 desired2 h2 n2 of
            Inl (p, s) \<Rightarrow> issued n2 (nl s) = []
          | Inr (e, h3, n3) \<Rightarrow> issued n2 n3 = [] \<and> e = None)"
  proof (cases "ApplyRoutes current2 desired2 h2 n2")
    case (Inl ps)
    obtain p s where ps: "ps = (p, s)" by (cases ps)
    from Inl ps have l: "range_keys_p desired2 (gen_desired ReqRouteAdd route_cmp current2)
        (map fst (h2 desired2)) ?s0 = Inl (p, s)"
      by (auto simp: ApplyRoutes_def Let_def ApplyRoutes_desired_gen range_map_p_def
          split: sum.splits)
    have "key_reqs ReqRouteAdd route_cmp (heap ?s0 current2) (heap ?s0 desired2)
        (map fst (h2 desired2)) = []"
      using dr dd by (simp add: key_reqs_entries assms(8,9))
    from range_desired_silent [OF assms(7) _ this] dd l have "nl s = n2"
      by (simp add: assms(9))
    with Inl ps show ?thesis by simp
  next
    case (Inr r)
    obtain e h3 n3 where r: "r = (e, h3, n3)" by (cases r)
    from ApplyRoutes_plan [OF two_mapsD [OF m2] Inr [unfolded r]] p2
    have "e = None" "n3 = n2"
      by (simp_all add: AsError_def)
    with Inr r show ?thesis by simp
  qed
  have second: "\<exists>h3. ApplyRoutes current2 desired2 h2 n2 = Inr (None, h3, n2)"
    if all: "\<forall>(k, v) \<in> set ?D. Route_Dst v \<noteq> None"
  proof -
    have "\<exists>r. ApplyRoutes current2 desired2 h2 n2 = Inr r"
    proof (rule ApplyRoutes_returns [OF assms(7)])
      show "distinct (map fst (h2 desired2))" using dd by (simp add: assms(9))
    next
      fix k x v
      assume x: "map_of (h2 current2) k = Some x" and v: "map_of (h2 desired2) k = Some v"
      from v have d: "map_of ?D k = Some v" by (simp add: assms(9))
      then have "(k, v) \<in> set ?D" by (rule map_of_SomeD)
      with all have dv: "Route_Dst v \<noteq> None" by auto
      have "Route_Dst x \<noteq> None"
      proof (cases "matched_reqs ReqRouteAdd route_cmp ?C k v = []")
        case True
        with tab [of k] d x have c: "map_of ?C k = Some x" by (simp add: assms(8))
        from ApplyRoutes_no_panic [OF assms(1,4) c d] show ?thesis by auto
      next
        case False
        with tab [of k] d x have "x = v" by (simp add: assms(8))
        with dv show ?thesis by simp
      qed
      with dv show "Route_Dst x \<noteq> None \<and> Route_Dst v \<noteq> None" by simp
    qed
    then obtain r where r: "ApplyRoutes current2 desired2 h2 n2 = Inr r" ..
    obtain e h3 n3 where "r = (e, h3, n3)" by (cases r)
    then have r': "ApplyRoutes current2 desired2 h2 n2 = Inr (e, h3, n3)" using r by simp
    from ApplyRoutes_plan(1,3) [OF two_mapsD [OF m2] r'] p2 have "e = None" "n3 = n2"
      by (simp_all add: AsError_def)
    with r' show ?thesis by blast
  qed
  from first second show ?thesis by blast
qed

theorem ApplyRoutes_idempotent_witness:
  "two_maps routes_heap 0 1
   \<and> keyed_by (RouteKey IPv4Net_String) (routes_heap 0)
   \<and> keyed_by (RouteKey IPv4Net_String) (routes_heap 1)
   \<and> (\<exists>h1 n1. ApplyRoutes 0 1 routes_heap quiet = Inr (None, h1, n1)
        \<and> map fst (issued quiet n1)
            = [ReqRouteReplace (route_to 0 [2, 2, 2, 2] []), ReqRouteAdd (route_to 1 [1, 1, 1, 1] []),
               ReqRouteDel (route_to 2 [1, 1, 1, 1] [])]
        \<and> (\<exists>h3. ApplyRoutes 0 1
                   (routes_heap(0 := routes_after IPv4Net_String (issued quiet n1) (routes_heap 0))) n1
                 = Inr (None, h3, n1)))"
proof -
  have m: "two_maps routes_heap 0 1"
    by (simp add: two_maps_def routes_heap_def)
  have kc: "keyed_by (RouteKey IPv4Net_String) (routes_heap 0)"
    and kd: "keyed_by (RouteKey IPv4Net_String) (routes_heap 1)"
    by (simp_all add: keyed_by_def routes_heap_def RouteKey_def IPv4Net_String_def IPv4_String_def
        fmt_d_def route_to_def)
  have "\<exists>h1 n1. ApplyRoutes 0 1 routes_heap quiet = Inr (None, h1, n1)
        \<and> map fst (issued quiet n1)
            = [ReqRouteReplace (route_to 0 [2, 2, 2, 2] []), ReqRouteAdd (route_to 1 [1, 1, 1, 1] []),
               ReqRouteDel (route_to 2 [1, 1, 1, 1] [])]"
    by (simp add: routes_defs run_defs ex_defs)
  then obtain h1 n1 where r: "ApplyRoutes 0 1 routes_heap quiet = Inr (None, h1, n1)"
    and q: "map fst (issued quiet n1)
            = [ReqRouteReplace (route_to 0 [2, 2, 2, 2] []), ReqRouteAdd (route_to 1 [1, 1, 1, 1] []),
               ReqRouteDel (route_to 2 [1, 1, 1, 1] [])]"
    by (elim exE conjE)
  let ?C' = "routes_after IPv4Net_String (issued quiet n1) (routes_heap 0)"
  have dC: "distinct (map fst ?C')"
    unfolding routes_after_def by (rule distinct_apply_changes) (rule two_mapsD(2) [OF m])
  have ne: "(0::nat) \<noteq> 1" by simp
  have c2: "(routes_heap(0 := ?C')) 0 = ?C'" and d2: "(routes_heap(0 := ?C')) 1 = routes_heap 1"
    by simp_all
  have all: "\<forall>(k, v) \<in> set (routes_heap 1). Route_Dst v \<noteq> None"
    by (simp add: routes_heap_def route_to_def)
  from ApplyRoutes_idempotent [OF m kc kd r dC refl ne c2 d2, of n1] all
  have s: "\<exists>h3. ApplyRoutes 0 1 (routes_heap(0 := ?C')) n1 = Inr (None, h3, n1)"
    by (elim conjE impE)
  from r q s have "\<exists>h1 n1. ApplyRoutes 0 1 routes_heap quiet = Inr (None, h1, n1)
        \<and> map fst (issued quiet n1)
            = [ReqRouteReplace (route_to 0 [2, 2, 2, 2] []), ReqRouteAdd (route_to 1 [1, 1, 1, 1] []),
               ReqRouteDel (route_to 2 [1, 1, 1, 1] [])]
        \<and> (\<exists>h3. ApplyRoutes 0 1
                   (routes_heap(0 := routes_after IPv4Net_String (issued quiet n1) (routes_heap 0))) n1
                 = Inr (None, h3, n1))"
    by (rule_tac x = h1 in exI, rule_tac x = n1 in exI) (intro conjI)
  with m kc kd show ?thesis
    by (intro conjI)
qed

end
